theory Spec2Isabelle
  imports Main "HOL-Library.Word"
begin

section \<open>The module \<open>rock_paper_scissors::game\<close>\<close>

text \<open>
  A shallow embedding of the Move module \<open>rock_paper_scissors::game\<close>. Machine integers
  are words; a Move \<open>abort\<close> (an \<open>assert!\<close> that fails, an arithmetic overflow, a borrow of
  an empty option, an index out of range, a \<open>move_to\<close> onto an occupied address) is the
  \<open>Inl\<close> branch of a sum. An aborted transaction leaves the chain as it was, so an entry
  function returns either the abort or the whole new state.
\<close>

type_synonym u8 = "8 word"
type_synonym u64 = "64 word"
type_synonym address = "256 word"
type_synonym bytes = "u8 list"

text \<open>A Move \<open>String\<close> is its vector of UTF-8 bytes.\<close>

type_synonym String = "u8 list"

datatype abort =
    E_GAME_NOT_FOUND
  | E_PLAYER_ALREADY_IN_GAME
  | E_GAME_FULL
  | E_INVALID_MOVE
  | E_NOT_YOUR_TURN
  | E_WRONG_PHASE
  | E_MOVE_ALREADY_COMMITTED
  | E_MOVE_NOT_COMMITTED
  | E_INVALID_MOVE_REVEAL
  | E_NOT_PLAYER
  | E_INSUFFICIENT_FUNDS
  | E_GAME_ID_EXISTS
  | E_INVALID_BET_AMOUNT
  | E_GAME_NOT_FINISHED
  | E_ALREADY_WITHDRAWN
  | E_NOT_CREATOR
  | E_GAME_ALREADY_STARTED
  | ARITHMETIC_ERROR
  | EOPTION_NOT_SET
  | EINDEX_OUT_OF_BOUNDS
  | ERESOURCE_ALREADY_EXISTS

text \<open>The numeric abort codes of the module's own errors.\<close>

fun abort_code :: "abort \<Rightarrow> u64 option" where
  "abort_code E_GAME_NOT_FOUND = Some 1"
| "abort_code E_PLAYER_ALREADY_IN_GAME = Some 2"
| "abort_code E_GAME_FULL = Some 3"
| "abort_code E_INVALID_MOVE = Some 4"
| "abort_code E_NOT_YOUR_TURN = Some 5"
| "abort_code E_WRONG_PHASE = Some 6"
| "abort_code E_MOVE_ALREADY_COMMITTED = Some 7"
| "abort_code E_MOVE_NOT_COMMITTED = Some 8"
| "abort_code E_INVALID_MOVE_REVEAL = Some 9"
| "abort_code E_NOT_PLAYER = Some 10"
| "abort_code E_INSUFFICIENT_FUNDS = Some 11"
| "abort_code E_GAME_ID_EXISTS = Some 12"
| "abort_code E_INVALID_BET_AMOUNT = Some 13"
| "abort_code E_GAME_NOT_FINISHED = Some 14"
| "abort_code E_ALREADY_WITHDRAWN = Some 15"
| "abort_code E_NOT_CREATOR = Some 16"
| "abort_code E_GAME_ALREADY_STARTED = Some 17"
| "abort_code _ = None"

abbreviation (input) ROCK :: u8 where "ROCK \<equiv> 0"
abbreviation (input) PAPER :: u8 where "PAPER \<equiv> 1"
abbreviation (input) SCISSORS :: u8 where "SCISSORS \<equiv> 2"

abbreviation (input) PHASE_WAITING :: u8 where "PHASE_WAITING \<equiv> 0"
abbreviation (input) PHASE_COMMIT :: u8 where "PHASE_COMMIT \<equiv> 1"
abbreviation (input) PHASE_REVEAL :: u8 where "PHASE_REVEAL \<equiv> 2"
abbreviation (input) PHASE_FINISHED :: u8 where "PHASE_FINISHED \<equiv> 3"

abbreviation (input) RESULT_PENDING :: u8 where "RESULT_PENDING \<equiv> 0"
abbreviation (input) RESULT_PLAYER1_WINS :: u8 where "RESULT_PLAYER1_WINS \<equiv> 1"
abbreviation (input) RESULT_PLAYER2_WINS :: u8 where "RESULT_PLAYER2_WINS \<equiv> 2"
abbreviation (input) RESULT_DRAW :: u8 where "RESULT_DRAW \<equiv> 3"

abbreviation (input) GAME_TYPE_PUBLIC :: u8 where "GAME_TYPE_PUBLIC \<equiv> 0"
abbreviation (input) GAME_TYPE_PRIVATE :: u8 where "GAME_TYPE_PRIVATE \<equiv> 1"

text \<open>
  \<open>struct Game\<close>. A \<open>Coin<AptosCoin>\<close> is the \<open>u64\<close> value it holds.
\<close>

record Game =
  creator :: address
  player1 :: "address option"
  player2 :: "address option"
  phase :: u8
  player1_move_hash :: "bytes option"
  player2_move_hash :: "bytes option"
  player1_move :: "u8 option"
  player2_move :: "u8 option"
  result :: u8
  winner :: "address option"
  created_at :: u64
  game_type :: u8
  short_id :: String
  bet_amount :: u64
  player1_deposit :: u64
  player2_deposit :: u64
  prize_withdrawn :: bool

record GameRegistry =
  id_to_address :: "String \<rightharpoonup> address"
  next_counter :: u64
  public_games :: "String list"

datatype event =
    GameCreated String address address u8 u64
  | PlayerJoined String address u64
  | MoveCommitted String address
  | MoveRevealed String address u8
  | GameFinished String "address option" u8 u8 u8 u64
  | PrizeWithdrawn String address u64
  | GameCancelled String address u64

text \<open>
  The chain, as far as the module reads and writes it: the \<open>GameRegistry\<close> and \<open>Game\<close>
  resources by address, the \<open>AptosCoin\<close> balance of every account, the clock of
  \<open>timestamp::now_microseconds\<close>, and the events emitted so far. Of the coin framework,
  \<open>coin::balance\<close> reads the balance of an account, \<open>coin::withdraw\<close> takes an amount out
  of it (every call here comes after the check that the balance covers the amount), and
  \<open>coin::deposit\<close> adds the value of a coin to it, which aborts when the sum does not fit
  a \<open>u64\<close>.
\<close>

record chain =
  registries :: "address \<rightharpoonup> GameRegistry"
  games :: "address \<rightharpoonup> Game"
  balance :: "address \<Rightarrow> u64"
  now_microseconds :: u64
  events :: "event list"

text \<open>\<open>+\<close> on \<open>u64\<close> aborts on overflow.\<close>

definition u64_add :: "u64 \<Rightarrow> u64 \<Rightarrow> abort + u64" where
  "u64_add a b = (if unat a + unat b < 2 ^ 64 then Inr (a + b) else Inl ARITHMETIC_ERROR)"

text \<open>\<open>std::bcs::to_bytes\<close>: a \<open>u8\<close> is its byte, a \<open>u64\<close> its eight bytes, low byte
  first, an address its 32 bytes, high byte first.\<close>

definition bcs_u8 :: "u8 \<Rightarrow> bytes" where
  "bcs_u8 b = [b]"

definition bcs_u64 :: "u64 \<Rightarrow> bytes" where
  "bcs_u64 w = map (\<lambda>i. ucast (drop_bit (8 * i) w)) [0..<8]"

definition bcs_address :: "address \<Rightarrow> bytes" where
  "bcs_address a = map (\<lambda>i. ucast (drop_bit (8 * i) a)) (rev [0..<32])"

definition now_seconds :: "chain \<Rightarrow> u64" where
  "now_seconds s = now_microseconds s div 1000000"

subsection \<open>\<open>init_registry\<close>\<close>

definition init_registry :: "address \<Rightarrow> chain \<Rightarrow> abort + chain" where
  "init_registry account_addr s =
     (if registries s account_addr = None then
        Inr (s\<lparr>registries := (registries s)(account_addr \<mapsto>
               \<lparr>id_to_address = Map.empty, next_counter = 1, public_games = []\<rparr>)\<rparr>)
      else Inr s)"

subsection \<open>\<open>generate_game_id\<close>\<close>

text \<open>
  The \<open>while (i < 4)\<close> loop over the first four bytes of the hash. \<open>vector::borrow\<close> aborts
  on an index beyond the vector. The additions and the subtraction on \<open>u8\<close> stay in range
  (\<open>char_val\<close> is below 32, and at least 26 where 26 is subtracted), and the bytes pushed
  are ASCII, so that \<open>string::utf8\<close> accepts them.
\<close>

function id_loop :: "bytes \<Rightarrow> nat \<Rightarrow> bytes \<Rightarrow> abort + bytes" where
  "id_loop hash_bytes i id_bytes =
     (if i < 4 then
        (if i < length hash_bytes then
           (let byte = hash_bytes ! i;
                char_val = byte mod 32
            in if char_val < 26 then id_loop hash_bytes (i + 1) (id_bytes @ [65 + char_val])
               else id_loop hash_bytes (i + 1) (id_bytes @ [50 + (char_val - 26)]))
         else Inl EINDEX_OUT_OF_BOUNDS)
      else Inr id_bytes)"
  by pat_completeness auto
termination
  by (relation "measure (\<lambda>(h, i, b). 4 - i)") auto

declare id_loop.simps [simp del]

text \<open>
  The hash \<open>hash::sha3_256\<close> is a parameter \<open>H\<close> of every function that calls it; the clock
  value read by \<open>timestamp::now_microseconds\<close> is the argument \<open>now\<close>.
\<close>

definition generate_game_id :: "(bytes \<Rightarrow> bytes) \<Rightarrow> u64 \<Rightarrow> address \<Rightarrow> u64 \<Rightarrow> abort + String" where
  "generate_game_id H counter creator_addr now =
     (let creator_bytes = bcs_address creator_addr @ bcs_u64 counter @ bcs_u64 now;
          hash_bytes = H creator_bytes
      in case id_loop hash_bytes 0 [] of
           Inl e \<Rightarrow> Inl e
         | Inr id_bytes \<Rightarrow>
             (let counter_suffix = (ucast (counter mod 100) :: u8);
                  tens = counter_suffix div 10;
                  ones = counter_suffix mod 10
              in Inr (id_bytes @ [48 + tens, 48 + ones])))"

subsection \<open>\<open>create_game\<close>\<close>

text \<open>
  \<open>object::create_object\<close> yields a new object address; it is the argument
  \<open>game_address\<close>, and \<open>move_to\<close> aborts when a \<open>Game\<close> is already stored there.
  \<open>coin::withdraw\<close> takes the amount out of the signer's balance.
\<close>

definition create_game ::
  "(bytes \<Rightarrow> bytes) \<Rightarrow> address \<Rightarrow> address \<Rightarrow> u8 \<Rightarrow> u64 \<Rightarrow> address \<Rightarrow> chain \<Rightarrow> abort + chain" where
  "create_game H game_address creator_addr gtype bet registry_owner s =
     (case registries s registry_owner of
        None \<Rightarrow> Inl E_GAME_NOT_FOUND
      | Some registry \<Rightarrow>
          if \<not> bet > 0 then Inl E_INVALID_BET_AMOUNT
          else if \<not> balance s creator_addr \<ge> bet then Inl E_INSUFFICIENT_FUNDS
          else
            (let counter = next_counter registry in
             case u64_add counter 1 of
               Inl e \<Rightarrow> Inl e
             | Inr counter' \<Rightarrow>
                 (case generate_game_id H counter creator_addr (now_microseconds s) of
                    Inl e \<Rightarrow> Inl e
                  | Inr game_id \<Rightarrow>
                      if id_to_address registry game_id \<noteq> None then Inl E_GAME_ID_EXISTS
                      else if games s game_address \<noteq> None then Inl ERESOURCE_ALREADY_EXISTS
                      else
                        (let game = \<lparr>creator = creator_addr,
                                     player1 = Some creator_addr,
                                     player2 = None,
                                     phase = PHASE_WAITING,
                                     player1_move_hash = None,
                                     player2_move_hash = None,
                                     player1_move = None,
                                     player2_move = None,
                                     result = RESULT_PENDING,
                                     winner = None,
                                     created_at = now_seconds s,
                                     game_type = gtype,
                                     short_id = game_id,
                                     bet_amount = bet,
                                     player1_deposit = bet,
                                     player2_deposit = 0,
                                     prize_withdrawn = False\<rparr>;
                             registry' = registry\<lparr>
                               id_to_address := (id_to_address registry)(game_id \<mapsto> game_address),
                               next_counter := counter',
                               public_games :=
                                 (if gtype = GAME_TYPE_PUBLIC
                                  then public_games registry @ [game_id]
                                  else public_games registry)\<rparr>
                         in Inr (s\<lparr>registries := (registries s)(registry_owner \<mapsto> registry'),
                                   games := (games s)(game_address \<mapsto> game),
                                   balance := (balance s)(creator_addr := balance s creator_addr - bet),
                                   events := events s @
                                     [GameCreated game_id game_address creator_addr gtype bet]\<rparr>)))))"

subsection \<open>Finding the game of an identifier\<close>

text \<open>
  Every other entry and view function starts with the same four lines: the registry must
  exist at \<open>registry_owner\<close>, its table must contain \<open>game_id\<close>, and a \<open>Game\<close> must exist
  at the address stored there; each check aborts with \<open>E_GAME_NOT_FOUND\<close>. The function
  returns the address and the \<open>Game\<close> that \<open>borrow_global\<close> then reads.
\<close>

definition borrow_game :: "String \<Rightarrow> address \<Rightarrow> chain \<Rightarrow> abort + (address \<times> Game)" where
  "borrow_game game_id registry_owner s =
     (case registries s registry_owner of
        None \<Rightarrow> Inl E_GAME_NOT_FOUND
      | Some registry \<Rightarrow>
          (case id_to_address registry game_id of
             None \<Rightarrow> Inl E_GAME_NOT_FOUND
           | Some game_address \<Rightarrow>
               (case games s game_address of
                  None \<Rightarrow> Inl E_GAME_NOT_FOUND
                | Some game \<Rightarrow> Inr (game_address, game))))"

subsection \<open>\<open>join_game\<close>\<close>

text \<open>
  \<open>option::borrow\<close> aborts on \<open>none\<close>; \<open>coin::merge\<close> adds the value of the second coin to
  the first.
\<close>

definition join_game :: "address \<Rightarrow> String \<Rightarrow> address \<Rightarrow> chain \<Rightarrow> abort + chain" where
  "join_game player_addr game_id registry_owner s =
     (case borrow_game game_id registry_owner s of
        Inl e \<Rightarrow> Inl e
      | Inr (game_address, game) \<Rightarrow>
          if phase game \<noteq> PHASE_WAITING then Inl E_WRONG_PHASE
          else if player2 game \<noteq> None then Inl E_GAME_FULL
          else
            (case player1 game of
               None \<Rightarrow> Inl EOPTION_NOT_SET
             | Some p1 \<Rightarrow>
                 if \<not> p1 \<noteq> player_addr then Inl E_PLAYER_ALREADY_IN_GAME
                 else if \<not> balance s player_addr \<ge> bet_amount game then Inl E_INSUFFICIENT_FUNDS
                 else
                   (case u64_add (player2_deposit game) (bet_amount game) of
                      Inl e \<Rightarrow> Inl e
                    | Inr merged \<Rightarrow>
                        Inr (s\<lparr>games := (games s)(game_address \<mapsto>
                                  game\<lparr>player2_deposit := merged,
                                       player2 := Some player_addr,
                                       phase := PHASE_COMMIT\<rparr>),
                                balance := (balance s)
                                  (player_addr := balance s player_addr - bet_amount game),
                                events := events s @
                                  [PlayerJoined game_id player_addr (bet_amount game)]\<rparr>))))"

subsection \<open>\<open>commit_move\<close>\<close>

definition commit_move :: "address \<Rightarrow> String \<Rightarrow> bytes \<Rightarrow> address \<Rightarrow> chain \<Rightarrow> abort + chain" where
  "commit_move player_addr game_id move_hash registry_owner s =
     (case borrow_game game_id registry_owner s of
        Inl e \<Rightarrow> Inl e
      | Inr (game_address, game) \<Rightarrow>
          if phase game \<noteq> PHASE_COMMIT then Inl E_WRONG_PHASE
          else
            (let is_player1 = (player1 game = Some player_addr);
                 is_player2 = (player2 game = Some player_addr)
             in if \<not> (is_player1 \<or> is_player2) then Inl E_NOT_PLAYER
                else if (if is_player1 then player1_move_hash game \<noteq> None
                         else player2_move_hash game \<noteq> None)
                then Inl E_MOVE_ALREADY_COMMITTED
                else
                  (let game1 = (if is_player1 then game\<lparr>player1_move_hash := Some move_hash\<rparr>
                                else game\<lparr>player2_move_hash := Some move_hash\<rparr>);
                       game2 = (if player1_move_hash game1 \<noteq> None \<and> player2_move_hash game1 \<noteq> None
                                then game1\<lparr>phase := PHASE_REVEAL\<rparr> else game1)
                   in Inr (s\<lparr>games := (games s)(game_address \<mapsto> game2),
                             events := events s @ [MoveCommitted game_id player_addr]\<rparr>))))"

subsection \<open>\<open>reveal_move\<close>\<close>

text \<open>
  The branch of \<open>reveal_move\<close> that runs once both moves are revealed: it sets the phase,
  then the result and the winner from the two moves.
\<close>

definition finish_game :: "u8 \<Rightarrow> u8 \<Rightarrow> Game \<Rightarrow> Game" where
  "finish_game move1 move2 game =
     (let game = game\<lparr>phase := PHASE_FINISHED\<rparr>
      in if move1 = move2 then game\<lparr>result := RESULT_DRAW\<rparr>
         else if (move1 = ROCK \<and> move2 = SCISSORS) \<or>
                 (move1 = PAPER \<and> move2 = ROCK) \<or>
                 (move1 = SCISSORS \<and> move2 = PAPER)
         then game\<lparr>result := RESULT_PLAYER1_WINS, winner := player1 game\<rparr>
         else game\<lparr>result := RESULT_PLAYER2_WINS, winner := player2 game\<rparr>)"

definition reveal_move ::
  "(bytes \<Rightarrow> bytes) \<Rightarrow> address \<Rightarrow> String \<Rightarrow> u8 \<Rightarrow> bytes \<Rightarrow> address \<Rightarrow> chain \<Rightarrow> abort + chain" where
  "reveal_move H player_addr game_id player_move nonce registry_owner s =
     (case borrow_game game_id registry_owner s of
        Inl e \<Rightarrow> Inl e
      | Inr (game_address, game) \<Rightarrow>
          if phase game \<noteq> PHASE_REVEAL then Inl E_WRONG_PHASE
          else if \<not> player_move \<le> SCISSORS then Inl E_INVALID_MOVE
          else
            (let is_player1 = (player1 game = Some player_addr);
                 is_player2 = (player2 game = Some player_addr)
             in if \<not> (is_player1 \<or> is_player2) then Inl E_NOT_PLAYER
                else
                  (let commitment = [] @ bcs_u8 player_move @ nonce;
                       computed_hash = H commitment
                   in case (if is_player1 then player1_move_hash game
                            else player2_move_hash game) of
                        None \<Rightarrow> Inl E_MOVE_NOT_COMMITTED
                      | Some stored_hash \<Rightarrow>
                          if computed_hash \<noteq> stored_hash then Inl E_INVALID_MOVE_REVEAL
                          else
                            (let game1 = (if is_player1 then game\<lparr>player1_move := Some player_move\<rparr>
                                          else game\<lparr>player2_move := Some player_move\<rparr>);
                                 revealed = MoveRevealed game_id player_addr player_move
                             in case (player1_move game1, player2_move game1) of
                                  (Some move1, Some move2) \<Rightarrow>
                                    (let game2 = finish_game move1 move2 game1
                                     in case u64_add (player1_deposit game2) (player2_deposit game2) of
                                          Inl e \<Rightarrow> Inl e
                                        | Inr total_prize \<Rightarrow>
                                            Inr (s\<lparr>games := (games s)(game_address \<mapsto> game2),
                                                    events := events s @
                                                      [revealed,
                                                       GameFinished game_id (winner game2) (result game2)
                                                         move1 move2 total_prize]\<rparr>))
                                | _ \<Rightarrow>
                                    Inr (s\<lparr>games := (games s)(game_address \<mapsto> game1),
                                            events := events s @ [revealed]\<rparr>)))))"

subsection \<open>\<open>withdraw_prize\<close>\<close>

text \<open>
  \<open>coin::extract_all\<close> empties a deposit and returns what it held; \<open>coin::deposit\<close> adds a
  coin to the balance of an account. In the draw branch \<open>||\<close> evaluates its right operand,
  and so borrows \<open>player2\<close>, only when the left one is false.
\<close>

definition withdraw_prize :: "address \<Rightarrow> String \<Rightarrow> address \<Rightarrow> chain \<Rightarrow> abort + chain" where
  "withdraw_prize winner_addr game_id registry_owner s =
     (case borrow_game game_id registry_owner s of
        Inl e \<Rightarrow> Inl e
      | Inr (game_address, game) \<Rightarrow>
          if phase game \<noteq> PHASE_FINISHED then Inl E_GAME_NOT_FINISHED
          else if prize_withdrawn game then Inl E_ALREADY_WITHDRAWN
          else
            (case u64_add (player1_deposit game) (player2_deposit game) of
               Inl e \<Rightarrow> Inl e
             | Inr total_amount \<Rightarrow>
                 if result game = RESULT_DRAW then
                   (case player1 game of
                      None \<Rightarrow> Inl EOPTION_NOT_SET
                    | Some p1 \<Rightarrow>
                        if winner_addr = p1 then
                          (case u64_add (balance s winner_addr) (player1_deposit game) of
                             Inl e \<Rightarrow> Inl e
                           | Inr b \<Rightarrow>
                               Inr (s\<lparr>games := (games s)(game_address \<mapsto> game\<lparr>player1_deposit := 0\<rparr>),
                                       balance := (balance s)(winner_addr := b)\<rparr>))
                        else
                          (case player2 game of
                             None \<Rightarrow> Inl EOPTION_NOT_SET
                           | Some p2 \<Rightarrow>
                               if \<not> winner_addr = p2 then Inl E_NOT_PLAYER
                               else
                                 (case u64_add (balance s winner_addr) (player2_deposit game) of
                                    Inl e \<Rightarrow> Inl e
                                  | Inr b \<Rightarrow>
                                      Inr (s\<lparr>games := (games s)(game_address \<mapsto>
                                                game\<lparr>player2_deposit := 0\<rparr>),
                                              balance := (balance s)(winner_addr := b)\<rparr>))))
                 else if \<not> winner game = Some winner_addr then Inl E_NOT_PLAYER
                 else
                   (case u64_add (player1_deposit game) (player2_deposit game) of
                      Inl e \<Rightarrow> Inl e
                    | Inr prize \<Rightarrow>
                        (case u64_add (balance s winner_addr) prize of
                           Inl e \<Rightarrow> Inl e
                         | Inr b \<Rightarrow>
                             Inr (s\<lparr>games := (games s)(game_address \<mapsto>
                                       game\<lparr>player1_deposit := 0,
                                            player2_deposit := 0,
                                            prize_withdrawn := True\<rparr>),
                                     balance := (balance s)(winner_addr := b),
                                     events := events s @
                                       [PrizeWithdrawn game_id winner_addr total_amount]\<rparr>)))))"

subsection \<open>View functions\<close>

definition get_game_info ::
  "String \<Rightarrow> address \<Rightarrow> chain \<Rightarrow>
   abort + (address \<times> address option \<times> address option \<times> u8 \<times> u8 \<times> address option \<times> u64 \<times> bool)" where
  "get_game_info game_id registry_owner s =
     (case borrow_game game_id registry_owner s of
        Inl e \<Rightarrow> Inl e
      | Inr (game_address, game) \<Rightarrow>
          Inr (creator game, player1 game, player2 game, phase game, result game, winner game,
               bet_amount game, prize_withdrawn game))"

definition get_game_moves :: "String \<Rightarrow> address \<Rightarrow> chain \<Rightarrow> abort + (u8 option \<times> u8 option)" where
  "get_game_moves game_id registry_owner s =
     (case borrow_game game_id registry_owner s of
        Inl e \<Rightarrow> Inl e
      | Inr (game_address, game) \<Rightarrow> Inr (player1_move game, player2_move game))"

definition get_public_games :: "address \<Rightarrow> chain \<Rightarrow> abort + String list" where
  "get_public_games registry_owner s =
     (case registries s registry_owner of
        None \<Rightarrow> Inl E_GAME_NOT_FOUND
      | Some registry \<Rightarrow> Inr (public_games registry))"

definition get_game_type :: "String \<Rightarrow> address \<Rightarrow> chain \<Rightarrow> abort + u8" where
  "get_game_type game_id registry_owner s =
     (case borrow_game game_id registry_owner s of
        Inl e \<Rightarrow> Inl e
      | Inr (game_address, game) \<Rightarrow> Inr (game_type game))"

definition create_move_hash :: "(bytes \<Rightarrow> bytes) \<Rightarrow> u8 \<Rightarrow> bytes \<Rightarrow> bytes" where
  "create_move_hash H player_move nonce =
     (let data = [player_move] @ nonce in H data)"

subsection \<open>\<open>cancel_game\<close>\<close>

text \<open>
  \<open>vector::index_of\<close> finds the first occurrence of the identifier and \<open>vector::remove\<close>
  deletes the element at that index, keeping the order of the others: \<open>remove1\<close>.
\<close>

definition cancel_game :: "address \<Rightarrow> String \<Rightarrow> address \<Rightarrow> chain \<Rightarrow> abort + chain" where
  "cancel_game creator_addr game_id registry_owner s =
     (case borrow_game game_id registry_owner s of
        Inl e \<Rightarrow> Inl e
      | Inr (game_address, game) \<Rightarrow>
          if \<not> creator game = creator_addr then Inl E_NOT_CREATOR
          else if phase game \<noteq> PHASE_WAITING then Inl E_GAME_ALREADY_STARTED
          else if player2 game \<noteq> None then Inl E_GAME_ALREADY_STARTED
          else
            (case u64_add (balance s creator_addr) (player1_deposit game) of
               Inl e \<Rightarrow> Inl e
             | Inr b \<Rightarrow>
                 (case registries s registry_owner of
                    None \<Rightarrow> Inl E_GAME_NOT_FOUND
                  | Some registry \<Rightarrow>
                      (let registry' = registry\<lparr>
                             id_to_address := (id_to_address registry)(game_id := None),
                             public_games :=
                               (if game_type game = GAME_TYPE_PUBLIC
                                then remove1 game_id (public_games registry)
                                else public_games registry)\<rparr>
                       in Inr (s\<lparr>registries := (registries s)(registry_owner \<mapsto> registry'),
                                 games := (games s)(game_address \<mapsto> game\<lparr>player1_deposit := 0\<rparr>),
                                 balance := (balance s)(creator_addr := b),
                                 events := events s @
                                   [GameCancelled game_id creator_addr (bet_amount game)]\<rparr>)))))"

section \<open>Transactions and reachable chains\<close>

text \<open>
  The chain after a transaction that calls one entry function: when the function aborts,
  every change is discarded.
\<close>

definition execute :: "(chain \<Rightarrow> abort + chain) \<Rightarrow> chain \<Rightarrow> chain" where
  "execute f s = (case f s of Inl e \<Rightarrow> s | Inr s' \<Rightarrow> s')"

text \<open>
  The chains the module can be in: it starts without registries and games, and changes
  by the entry functions, called by anyone with any arguments. Between two calls other
  transactions move coins and time passes.
\<close>

inductive reachable :: "(bytes \<Rightarrow> bytes) \<Rightarrow> chain \<Rightarrow> bool" for H :: "bytes \<Rightarrow> bytes" where
  genesis: "reachable H \<lparr>registries = Map.empty, games = Map.empty, balance = b,
                          now_microseconds = t, events = []\<rparr>"
| environment: "reachable H s \<Longrightarrow> reachable H (s\<lparr>balance := b, now_microseconds := t\<rparr>)"
| init_registry: "reachable H s \<Longrightarrow> init_registry a s = Inr s' \<Longrightarrow> reachable H s'"
| create_game: "reachable H s \<Longrightarrow> create_game H ga c ty bet r s = Inr s' \<Longrightarrow> reachable H s'"
| join_game: "reachable H s \<Longrightarrow> join_game p gid r s = Inr s' \<Longrightarrow> reachable H s'"
| commit_move: "reachable H s \<Longrightarrow> commit_move p gid h r s = Inr s' \<Longrightarrow> reachable H s'"
| reveal_move: "reachable H s \<Longrightarrow> reveal_move H p gid m n r s = Inr s' \<Longrightarrow> reachable H s'"
| withdraw_prize: "reachable H s \<Longrightarrow> withdraw_prize p gid r s = Inr s' \<Longrightarrow> reachable H s'"
| cancel_game: "reachable H s \<Longrightarrow> cancel_game p gid r s = Inr s' \<Longrightarrow> reachable H s'"

text \<open>The number of players of a game.\<close>

definition joined :: "Game \<Rightarrow> nat" where
  "joined g = (if player1 g = None then 0 else 1) + (if player2 g = None then 0 else 1)"

text \<open>What holds of every game a registry points to.\<close>

definition game_inv :: "Game \<Rightarrow> bool" where
  "game_inv g \<longleftrightarrow>
     player1 g = Some (creator g) \<and> 0 < bet_amount g \<and>
     (if phase g = PHASE_WAITING then
        player2 g = None \<and> player1_deposit g = bet_amount g \<and> player2_deposit g = 0 \<and>
        \<not> prize_withdrawn g
      else if phase g = PHASE_COMMIT \<or> phase g = PHASE_REVEAL then
        player2 g \<noteq> None \<and> player1_deposit g = bet_amount g \<and>
        player2_deposit g = bet_amount g \<and> \<not> prize_withdrawn g
      else
        phase g = PHASE_FINISHED \<and> player2 g \<noteq> None \<and>
        (if result g = RESULT_DRAW then
           \<not> prize_withdrawn g \<and>
           (player1_deposit g = bet_amount g \<or> player1_deposit g = 0) \<and>
           (player2_deposit g = bet_amount g \<or> player2_deposit g = 0)
         else if prize_withdrawn g then player1_deposit g = 0 \<and> player2_deposit g = 0
         else player1_deposit g = bet_amount g \<and> player2_deposit g = bet_amount g))"

text \<open>What holds of every stored game, cancelled ones included.\<close>

definition present :: "Game \<Rightarrow> bool" where
  "present g \<longleftrightarrow>
     player1 g = Some (creator g) \<and>
     (phase g = PHASE_COMMIT \<or> phase g = PHASE_REVEAL \<or> phase g = PHASE_FINISHED
        \<longrightarrow> player2 g \<noteq> None)"

definition registered :: "chain \<Rightarrow> address \<Rightarrow> String \<Rightarrow> address \<Rightarrow> bool" where
  "registered s r gid a \<longleftrightarrow>
     (case registries s r of
        None \<Rightarrow> False
      | Some registry \<Rightarrow> id_to_address registry gid = Some a)"

definition chain_inv :: "chain \<Rightarrow> bool" where
  "chain_inv s \<longleftrightarrow>
     (\<forall>a g. games s a = Some g \<longrightarrow> present g) \<and>
     (\<forall>r gid a. registered s r gid a \<longrightarrow> (\<exists>g. games s a = Some g \<and> game_inv g)) \<and>
     (\<forall>r gid r' gid' a. registered s r gid a \<longrightarrow> registered s r' gid' a \<longrightarrow>
        r = r' \<and> gid = gid')"

text \<open>The phase and the result of the game an identifier stands for, when there is one.\<close>

definition phase_of :: "String \<Rightarrow> address \<Rightarrow> chain \<Rightarrow> u8 option" where
  "phase_of gid r s = (case borrow_game gid r s of Inl e \<Rightarrow> None | Inr (a, g) \<Rightarrow> Some (phase g))"

definition result_of :: "String \<Rightarrow> address \<Rightarrow> chain \<Rightarrow> u8 option" where
  "result_of gid r s = (case borrow_game gid r s of Inl e \<Rightarrow> None | Inr (a, g) \<Rightarrow> Some (result g))"

text \<open>
  One transaction that succeeds: a call of an entry function by anyone, or a change of the
  balances and the clock. \<open>(step H)\<^sup>*\<^sup>*\<close> relates a chain to every chain that comes after.
\<close>

inductive step :: "(bytes \<Rightarrow> bytes) \<Rightarrow> chain \<Rightarrow> chain \<Rightarrow> bool" for H :: "bytes \<Rightarrow> bytes" where
  environment: "step H s (s\<lparr>balance := b, now_microseconds := t\<rparr>)"
| init_registry: "init_registry a s = Inr s' \<Longrightarrow> step H s s'"
| create_game: "create_game H ga c ty bet r s = Inr s' \<Longrightarrow> step H s s'"
| join_game: "join_game p gid r s = Inr s' \<Longrightarrow> step H s s'"
| commit_move: "commit_move p gid h r s = Inr s' \<Longrightarrow> step H s s'"
| reveal_move: "reveal_move H p gid m n r s = Inr s' \<Longrightarrow> step H s s'"
| withdraw_prize: "withdraw_prize p gid r s = Inr s' \<Longrightarrow> step H s s'"
| cancel_game: "cancel_game p gid r s = Inr s' \<Longrightarrow> step H s s'"

text \<open>Player \<open>p\<close> of the game, which has left the waiting phase, has committed the hash \<open>h\<close>.\<close>

definition committed :: "address \<Rightarrow> bytes \<Rightarrow> Game \<Rightarrow> bool" where
  "committed p h g \<longleftrightarrow>
     phase g \<noteq> PHASE_WAITING \<and>
     (player1 g = Some p \<or> player2 g = Some p) \<and>
     (if player1 g = Some p then player1_move_hash g else player2_move_hash g) = Some h"

text \<open>The same of the game that the identifier \<open>gid\<close> stands for in the registry of \<open>r\<close>.\<close>

definition holds :: "address \<Rightarrow> bytes \<Rightarrow> String \<Rightarrow> address \<Rightarrow> chain \<Rightarrow> bool" where
  "holds p h gid r s \<longleftrightarrow>
     (case borrow_game gid r s of Inl e \<Rightarrow> False | Inr (a, g) \<Rightarrow> committed p h g)"

text \<open>
  The call \<open>reveal_move\<close> of player \<open>p\<close> with the move \<open>m\<close> and the nonce \<open>n\<close> is the
  reveal that completes the game \<open>g\<close>: the game is in the reveal phase, \<open>p\<close> is one of its
  players and has committed the hash of the bytes of \<open>(m, n)\<close>, the other move is
  revealed already, so that with \<open>m\<close> the move of player 1 is \<open>m1\<close> and the move of
  player 2 is \<open>m2\<close>, both valid, and the sum of the deposits fits a \<open>u64\<close>.
\<close>

definition last_reveal :: "(bytes \<Rightarrow> bytes) \<Rightarrow> address \<Rightarrow> u8 \<Rightarrow> bytes \<Rightarrow> Game \<Rightarrow> u8 \<Rightarrow> u8 \<Rightarrow> bool" where
  "last_reveal H p m n g m1 m2 \<longleftrightarrow>
     phase g = PHASE_REVEAL \<and>
     (player1 g = Some p \<or> player2 g = Some p) \<and>
     (if player1 g = Some p then player1_move_hash g else player2_move_hash g)
       = Some (H ([] @ bcs_u8 m @ n)) \<and>
     (if player1 g = Some p then (Some m, player2_move g) else (player1_move g, Some m))
       = (Some m1, Some m2) \<and>
     m1 \<le> SCISSORS \<and> m2 \<le> SCISSORS \<and>
     unat (player1_deposit g) + unat (player2_deposit g) < 2 ^ 64"

section \<open>A game played on a small chain\<close>

text \<open>
  Concrete chains on which the functions are evaluated. \<open>demo_hash\<close> stands for the hash
  there: it pads or cuts its input to 32 bytes. Alice creates a public game with a bet
  of 50 in the registry of \<open>owner\<close>, the game object is stored at \<open>table\<close>, and Bob joins.
\<close>

definition demo_hash :: "bytes \<Rightarrow> bytes" where
  "demo_hash bs = take 32 (bs @ replicate 32 0)"

definition alice :: address where "alice = 256"
definition bob :: address where "bob = 512"
definition owner :: address where "owner = 1"
definition table :: address where "table = 768"
definition carol :: address where "carol = 1024"

definition demo_id :: String where
  "demo_id = [65, 65, 65, 65, 48, 49]"

definition nonce1 :: bytes where "nonce1 = [7]"
definition nonce2 :: bytes where "nonce2 = [9]"

definition genesis_chain :: chain where
  "genesis_chain = \<lparr>registries = Map.empty, games = Map.empty, balance = (\<lambda>a. 1000),
                     now_microseconds = 0, events = []\<rparr>"

definition st_reg :: chain where
  "st_reg = genesis_chain\<lparr>registries :=
     [owner \<mapsto> \<lparr>id_to_address = Map.empty, next_counter = 1, public_games = []\<rparr>]\<rparr>"

text \<open>The chain with the one game \<open>g\<close>, the balances of Alice and Bob, and the events.\<close>

definition scene :: "Game \<Rightarrow> u64 \<Rightarrow> u64 \<Rightarrow> event list \<Rightarrow> chain" where
  "scene g b1 b2 evs =
     \<lparr>registries = [owner \<mapsto> \<lparr>id_to_address = [demo_id \<mapsto> table], next_counter = 2,
                               public_games = [demo_id]\<rparr>],
      games = [table \<mapsto> g],
      balance = (\<lambda>a. if a = alice then b1 else if a = bob then b2 else 1000),
      now_microseconds = 0,
      events = evs\<rparr>"

definition g_wait :: Game where
  "g_wait = \<lparr>creator = alice, player1 = Some alice, player2 = None, phase = PHASE_WAITING,
     player1_move_hash = None, player2_move_hash = None, player1_move = None,
     player2_move = None, result = RESULT_PENDING, winner = None, created_at = 0,
     game_type = GAME_TYPE_PUBLIC, short_id = demo_id, bet_amount = 50,
     player1_deposit = 50, player2_deposit = 0, prize_withdrawn = False\<rparr>"

definition g_commit :: Game where
  "g_commit = g_wait\<lparr>player2_deposit := 50, player2 := Some bob, phase := PHASE_COMMIT\<rparr>"

definition g_c1 :: "u8 \<Rightarrow> Game" where
  "g_c1 m1 = g_commit\<lparr>player1_move_hash := Some (create_move_hash demo_hash m1 nonce1)\<rparr>"

definition g_reveal :: "u8 \<Rightarrow> u8 \<Rightarrow> Game" where
  "g_reveal m1 m2 = (g_c1 m1)\<lparr>player2_move_hash := Some (create_move_hash demo_hash m2 nonce2),
                               phase := PHASE_REVEAL\<rparr>"

definition g_r1 :: "u8 \<Rightarrow> u8 \<Rightarrow> Game" where
  "g_r1 m1 m2 = (g_reveal m1 m2)\<lparr>player1_move := Some m1\<rparr>"

definition g_fin :: "u8 \<Rightarrow> u8 \<Rightarrow> Game" where
  "g_fin m1 m2 = finish_game m1 m2 ((g_r1 m1 m2)\<lparr>player2_move := Some m2\<rparr>)"

definition ev_wait :: "event list" where
  "ev_wait = [GameCreated demo_id table alice GAME_TYPE_PUBLIC 50]"

definition ev_commit :: "event list" where
  "ev_commit = ev_wait @ [PlayerJoined demo_id bob 50]"

definition ev_c1 :: "event list" where
  "ev_c1 = ev_commit @ [MoveCommitted demo_id alice]"

definition ev_reveal :: "event list" where
  "ev_reveal = ev_c1 @ [MoveCommitted demo_id bob]"

definition ev_r1 :: "u8 \<Rightarrow> event list" where
  "ev_r1 m1 = ev_reveal @ [MoveRevealed demo_id alice m1]"

definition ev_fin :: "u8 \<Rightarrow> u8 \<Rightarrow> event list" where
  "ev_fin m1 m2 = ev_r1 m1 @
     [MoveRevealed demo_id bob m2,
      GameFinished demo_id (winner (g_fin m1 m2)) (result (g_fin m1 m2)) m1 m2 100]"

definition st_wait :: chain where
  "st_wait = scene g_wait 950 1000 ev_wait"

definition st_commit :: chain where
  "st_commit = scene g_commit 950 950 ev_commit"

definition st_c1 :: "u8 \<Rightarrow> chain" where
  "st_c1 m1 = scene (g_c1 m1) 950 950 ev_c1"

definition st_reveal :: "u8 \<Rightarrow> u8 \<Rightarrow> chain" where
  "st_reveal m1 m2 = scene (g_reveal m1 m2) 950 950 ev_reveal"

definition st_r1 :: "u8 \<Rightarrow> u8 \<Rightarrow> chain" where
  "st_r1 m1 m2 = scene (g_r1 m1 m2) 950 950 (ev_r1 m1)"

definition st_fin :: "u8 \<Rightarrow> u8 \<Rightarrow> chain" where
  "st_fin m1 m2 = scene (g_fin m1 m2) 950 950 (ev_fin m1 m2)"

text \<open>Rock against scissors, after Alice has taken the prize.\<close>

definition g_paid :: Game where
  "g_paid = (g_fin ROCK SCISSORS)\<lparr>player1_deposit := 0, player2_deposit := 0,
                                    prize_withdrawn := True\<rparr>"

definition st_paid :: chain where
  "st_paid = scene g_paid 1050 950 (ev_fin ROCK SCISSORS @ [PrizeWithdrawn demo_id alice 100])"

text \<open>Paper against paper, after Alice has taken her deposit back.\<close>

definition g_refunded :: Game where
  "g_refunded = (g_fin PAPER PAPER)\<lparr>player1_deposit := 0\<rparr>"

definition st_refunded :: chain where
  "st_refunded = scene g_refunded 1000 950 (ev_fin PAPER PAPER)"

text \<open>The game cancelled by Alice before anyone has joined.\<close>

definition st_cancelled :: chain where
  "st_cancelled =
     \<lparr>registries = [owner \<mapsto> \<lparr>id_to_address = Map.empty, next_counter = 2, public_games = []\<rparr>],
      games = [table \<mapsto> g_wait\<lparr>player1_deposit := 0\<rparr>],
      balance = (\<lambda>a. 1000),
      now_microseconds = 0,
      events = ev_wait @ [GameCancelled demo_id alice 50]\<rparr>"

section \<open>The alphabet of identifiers\<close>

text \<open>
  The 32 symbols \<open>ABCDEFGHJKLMNPQRSTUVWXYZ23456789\<close>: the upper-case letters without
  \<open>I\<close> and \<open>O\<close>, and the digits \<open>2\<close> to \<open>9\<close>, as ASCII codes.
\<close>

definition clear_alphabet :: "u8 list" where
  "clear_alphabet =
     [65, 66, 67, 68, 69, 70, 71, 72, 74, 75, 76, 77, 78, 80, 81, 82, 83, 84, 85, 86, 87, 88, 89, 90,
      50, 51, 52, 53, 54, 55, 56, 57]"

section \<open>Invariants of reachable chains\<close>

lemma borrow_game_registered:
  "borrow_game gid r s = Inr (a, g) \<longleftrightarrow> registered s r gid a \<and> games s a = Some g"
  by (auto simp: borrow_game_def registered_def split: option.splits)

lemma chain_inv_update:
  assumes "chain_inv s" and "borrow_game gid r s = Inr (a, g)"
    and "registries s' = registries s" and "\<forall>b. b \<noteq> a \<longrightarrow> games s' b = games s b"
    and "case games s' a of None \<Rightarrow> False | Some g' \<Rightarrow> game_inv g' \<and> present g'"
  shows "chain_inv s'"
proof -
  have reg: "registered s' = registered s"
    using assms(3) by (simp add: registered_def fun_eq_iff)
  obtain g' where g': "games s' a = Some g'" "game_inv g'" "present g'"
    using assms(5) by (auto split: option.splits)
  have other: "games s' b = games s b" if "b \<noteq> a" for b
    using assms(4) that by simp
  have 1: "present h" if "games s' b = Some h" for b h
    using that g' other[of b] assms(1) by (cases "b = a") (auto simp: chain_inv_def)
  have 2: "\<exists>h. games s' b = Some h \<and> game_inv h" if "registered s q i b" for q i b
    using that g' other[of b] assms(1) by (cases "b = a") (auto simp: chain_inv_def)
  have 3: "q = q' \<and> i = i'" if "registered s q i b" "registered s q' i' b" for q i q' i' b
    using that assms(1) unfolding chain_inv_def by blast
  show ?thesis
    unfolding chain_inv_def reg using 1 2 3 by blast
qed

lemma join_game_frame:
  assumes "join_game p gid r s = Inr s'" and "borrow_game gid r s = Inr (a, g)"
  shows "registries s' = registries s \<and> (\<forall>b. b \<noteq> a \<longrightarrow> games s' b = games s b)"
  using assms
  by (simp add: join_game_def split: sum.splits if_splits option.splits prod.splits) auto

lemma join_game_game:
  assumes "join_game p gid r s = Inr s'" and "borrow_game gid r s = Inr (a, g)"
    and "game_inv g \<and> present g"
  shows "case games s' a of None \<Rightarrow> False | Some g' \<Rightarrow> game_inv g' \<and> present g'"
  using assms
  by (simp add: join_game_def u64_add_def split: sum.splits if_splits option.splits prod.splits)
     (auto simp: game_inv_def present_def)

lemma join_game_borrow:
  assumes "join_game p gid r s = Inr s'"
  shows "\<exists>a g. borrow_game gid r s = Inr (a, g)"
  using assms by (cases "borrow_game gid r s") (auto simp: join_game_def)

lemma commit_move_frame:
  assumes "commit_move p gid h r s = Inr s'" and "borrow_game gid r s = Inr (a, g)"
  shows "registries s' = registries s \<and> (\<forall>b. b \<noteq> a \<longrightarrow> games s' b = games s b)"
  using assms
  by (simp add: commit_move_def Let_def split: sum.splits if_splits option.splits prod.splits) auto

lemma commit_move_game:
  assumes "commit_move p gid h r s = Inr s'" and "borrow_game gid r s = Inr (a, g)"
    and "game_inv g \<and> present g"
  shows "case games s' a of None \<Rightarrow> False | Some g' \<Rightarrow> game_inv g' \<and> present g'"
  using assms
  by (simp add: commit_move_def Let_def split: sum.splits if_splits option.splits prod.splits)
     (auto simp: game_inv_def present_def)

lemma commit_move_borrow:
  assumes "commit_move p gid h r s = Inr s'"
  shows "\<exists>a g. borrow_game gid r s = Inr (a, g)"
  using assms by (cases "borrow_game gid r s") (auto simp: commit_move_def)

lemma finish_game_sel [simp]:
  "phase (finish_game m1 m2 g) = PHASE_FINISHED"
  "creator (finish_game m1 m2 g) = creator g"
  "player1 (finish_game m1 m2 g) = player1 g"
  "player2 (finish_game m1 m2 g) = player2 g"
  "bet_amount (finish_game m1 m2 g) = bet_amount g"
  "player1_deposit (finish_game m1 m2 g) = player1_deposit g"
  "player2_deposit (finish_game m1 m2 g) = player2_deposit g"
  "prize_withdrawn (finish_game m1 m2 g) = prize_withdrawn g"
  "player1_move (finish_game m1 m2 g) = player1_move g"
  "player2_move (finish_game m1 m2 g) = player2_move g"
  "player1_move_hash (finish_game m1 m2 g) = player1_move_hash g"
  "player2_move_hash (finish_game m1 m2 g) = player2_move_hash g"
  by (simp_all add: finish_game_def Let_def)

lemma game_inv_finish_game:
  "game_inv g \<Longrightarrow> phase g = PHASE_REVEAL \<Longrightarrow> game_inv (finish_game m1 m2 g)"
  by (simp add: game_inv_def)

lemma present_finish_game:
  "present g \<Longrightarrow> phase g = PHASE_REVEAL \<Longrightarrow> present (finish_game m1 m2 g)"
  by (simp add: present_def)

lemma game_inv_move_update [simp]:
  "game_inv (g\<lparr>player1_move := x\<rparr>) = game_inv g"
  "game_inv (g\<lparr>player2_move := x\<rparr>) = game_inv g"
  "present (g\<lparr>player1_move := x\<rparr>) = present g"
  "present (g\<lparr>player2_move := x\<rparr>) = present g"
  by (simp_all add: game_inv_def present_def)

lemma reveal_move_frame:
  assumes "reveal_move H p gid m n r s = Inr s'" and "borrow_game gid r s = Inr (a, g)"
  shows "registries s' = registries s \<and> (\<forall>b. b \<noteq> a \<longrightarrow> games s' b = games s b)"
  using assms
  by (auto simp add: reveal_move_def Let_def split: if_splits option.splits sum.splits)

lemma reveal_move_game:
  assumes "reveal_move H p gid m n r s = Inr s'" and "borrow_game gid r s = Inr (a, g)"
    and "game_inv g \<and> present g"
  shows "case games s' a of None \<Rightarrow> False | Some g' \<Rightarrow> game_inv g' \<and> present g'"
  using assms
  by (auto simp: reveal_move_def Let_def game_inv_finish_game present_finish_game
           split: if_splits option.splits sum.splits)

lemma reveal_move_borrow:
  assumes "reveal_move H p gid m n r s = Inr s'"
  shows "\<exists>a g. borrow_game gid r s = Inr (a, g)"
  using assms by (cases "borrow_game gid r s") (auto simp: reveal_move_def)

lemma present_deposit_update [simp]:
  "present (g\<lparr>player1_deposit := x\<rparr>) = present g"
  "present (g\<lparr>player2_deposit := x\<rparr>) = present g"
  "present (g\<lparr>prize_withdrawn := y\<rparr>) = present g"
  by (simp_all add: present_def)

lemma game_inv_refund1:
  "game_inv g \<Longrightarrow> phase g = PHASE_FINISHED \<Longrightarrow> result g = RESULT_DRAW \<Longrightarrow>
   game_inv (g\<lparr>player1_deposit := 0\<rparr>)"
  by (simp add: game_inv_def)

lemma game_inv_refund2:
  "game_inv g \<Longrightarrow> phase g = PHASE_FINISHED \<Longrightarrow> result g = RESULT_DRAW \<Longrightarrow>
   game_inv (g\<lparr>player2_deposit := 0\<rparr>)"
  by (simp add: game_inv_def)

lemma game_inv_payout:
  "game_inv g \<Longrightarrow> phase g = PHASE_FINISHED \<Longrightarrow> result g \<noteq> RESULT_DRAW \<Longrightarrow>
   game_inv (g\<lparr>player1_deposit := 0, player2_deposit := 0, prize_withdrawn := True\<rparr>)"
  by (simp add: game_inv_def)

lemma withdraw_prize_frame:
  assumes "withdraw_prize p gid r s = Inr s'" and "borrow_game gid r s = Inr (a, g)"
  shows "registries s' = registries s \<and> (\<forall>b. b \<noteq> a \<longrightarrow> games s' b = games s b)"
  using assms
  by (auto simp: withdraw_prize_def split: sum.splits if_splits option.splits)

lemma withdraw_prize_game:
  assumes "withdraw_prize p gid r s = Inr s'" and "borrow_game gid r s = Inr (a, g)"
    and "game_inv g \<and> present g"
  shows "case games s' a of None \<Rightarrow> False | Some g' \<Rightarrow> game_inv g' \<and> present g'"
  using assms
  by (auto simp: withdraw_prize_def game_inv_refund1 game_inv_refund2 game_inv_payout
           split: sum.splits if_splits option.splits)

lemma withdraw_prize_borrow:
  assumes "withdraw_prize p gid r s = Inr s'"
  shows "\<exists>a g. borrow_game gid r s = Inr (a, g)"
  using assms by (cases "borrow_game gid r s") (auto simp: withdraw_prize_def)

lemma chain_inv_registered:
  "chain_inv s \<Longrightarrow> registered s r gid a \<Longrightarrow> \<exists>g. games s a = Some g \<and> game_inv g"
  unfolding chain_inv_def by blast

lemma chain_inv_present:
  "chain_inv s \<Longrightarrow> games s a = Some g \<Longrightarrow> present g"
  unfolding chain_inv_def by blast

lemma chain_inv_borrow:
  assumes "chain_inv s" and "borrow_game gid r s = Inr (a, g)"
  shows "game_inv g \<and> present g"
proof -
  have "registered s r gid a" "games s a = Some g"
    using assms(2) by (simp_all add: borrow_game_registered)
  then show ?thesis
    using chain_inv_registered[OF assms(1), of r gid a] chain_inv_present[OF assms(1), of a g]
    by auto
qed

lemma chain_inv_genesis:
  "chain_inv \<lparr>registries = Map.empty, games = Map.empty, balance = b,
              now_microseconds = t, events = []\<rparr>"
  by (simp add: chain_inv_def registered_def)

lemma chain_inv_environment:
  "chain_inv s \<Longrightarrow> chain_inv (s\<lparr>balance := b, now_microseconds := t\<rparr>)"
  by (simp add: chain_inv_def registered_def)

lemma chain_inv_init_registry:
  assumes "chain_inv s" and "init_registry a s = Inr s'"
  shows "chain_inv s'"
proof (cases "registries s a")
  case None
  then have s': "s' = s\<lparr>registries := (registries s)(a \<mapsto>
      \<lparr>id_to_address = Map.empty, next_counter = 1, public_games = []\<rparr>)\<rparr>"
    using assms(2) by (simp add: init_registry_def)
  have reg: "registered s' = registered s"
    using None by (auto simp: s' registered_def fun_eq_iff)
  show ?thesis
    using assms(1) unfolding chain_inv_def reg by (simp add: s')
next
  case (Some x)
  then show ?thesis using assms by (simp add: init_registry_def)
qed

lemma game_inv_new:
  "0 < bet \<Longrightarrow>
   game_inv \<lparr>creator = c, player1 = Some c, player2 = None, phase = PHASE_WAITING,
     player1_move_hash = None, player2_move_hash = None, player1_move = None,
     player2_move = None, result = RESULT_PENDING, winner = None, created_at = t,
     game_type = ty, short_id = gid, bet_amount = bet, player1_deposit = bet,
     player2_deposit = 0, prize_withdrawn = False\<rparr>"
  by (simp add: game_inv_def)

lemma present_new:
  "present \<lparr>creator = c, player1 = Some c, player2 = None, phase = PHASE_WAITING,
     player1_move_hash = None, player2_move_hash = None, player1_move = None,
     player2_move = None, result = RESULT_PENDING, winner = None, created_at = t,
     game_type = ty, short_id = gid, bet_amount = bet, player1_deposit = bet,
     player2_deposit = 0, prize_withdrawn = False\<rparr>"
  by (simp add: present_def)

text \<open>What a successful \<open>create_game\<close> does.\<close>

lemma create_game_Inr:
  assumes "create_game H ga c ty bet r s = Inr s'"
  obtains registry gid counter' where
    "registries s r = Some registry" and "id_to_address registry gid = None" and
    "games s ga = None" and "0 < bet" and
    "generate_game_id H (next_counter registry) c (now_microseconds s) = Inr gid" and
    "games s' = (games s)(ga \<mapsto>
       \<lparr>creator = c, player1 = Some c, player2 = None, phase = PHASE_WAITING,
        player1_move_hash = None, player2_move_hash = None, player1_move = None,
        player2_move = None, result = RESULT_PENDING, winner = None,
        created_at = now_seconds s, game_type = ty, short_id = gid, bet_amount = bet,
        player1_deposit = bet, player2_deposit = 0, prize_withdrawn = False\<rparr>)" and
    "registries s' = (registries s)(r \<mapsto> registry\<lparr>
       id_to_address := (id_to_address registry)(gid \<mapsto> ga),
       next_counter := counter',
       public_games := (if ty = GAME_TYPE_PUBLIC then public_games registry @ [gid]
                        else public_games registry)\<rparr>)" and
    "balance s' = (balance s)(c := balance s c - bet)" and
    "events s' = events s @ [GameCreated gid ga c ty bet]"
proof (cases "registries s r")
  case None
  then show ?thesis using assms by (simp add: create_game_def)
next
  case (Some registry)
  note r = this
  have bet: "0 < bet" "bet \<le> balance s c"
    using assms r by (simp_all add: create_game_def split: if_splits)
  obtain counter' where c': "u64_add (next_counter registry) 1 = Inr counter'"
    using assms r bet by (cases "u64_add (next_counter registry) 1") (simp_all add: create_game_def)
  obtain gid where gid: "generate_game_id H (next_counter registry) c (now_microseconds s) = Inr gid"
    using assms r bet c'
    by (cases "generate_game_id H (next_counter registry) c (now_microseconds s)")
       (simp_all add: create_game_def)
  have fresh: "id_to_address registry gid = None" "games s ga = None"
    using assms r bet c' gid by (simp_all add: create_game_def split: if_splits)
  have "s' = s\<lparr>registries := (registries s)(r \<mapsto> registry\<lparr>
       id_to_address := (id_to_address registry)(gid \<mapsto> ga),
       next_counter := counter',
       public_games := (if ty = GAME_TYPE_PUBLIC then public_games registry @ [gid]
                        else public_games registry)\<rparr>),
     games := (games s)(ga \<mapsto>
       \<lparr>creator = c, player1 = Some c, player2 = None, phase = PHASE_WAITING,
        player1_move_hash = None, player2_move_hash = None, player1_move = None,
        player2_move = None, result = RESULT_PENDING, winner = None,
        created_at = now_seconds s, game_type = ty, short_id = gid, bet_amount = bet,
        player1_deposit = bet, player2_deposit = 0, prize_withdrawn = False\<rparr>),
     balance := (balance s)(c := balance s c - bet),
     events := events s @ [GameCreated gid ga c ty bet]\<rparr>"
    using assms r bet c' gid fresh by (simp add: create_game_def Let_def)
  then show ?thesis
    using that[OF r fresh(1) fresh(2) bet(1) gid, of counter'] by simp
qed

lemma chain_inv_create_game:
  assumes inv: "chain_inv s" and step: "create_game H ga c ty bet r s = Inr s'"
  shows "chain_inv s'"
proof -
  from step obtain registry gid counter' g registry' where
    r: "registries s r = Some registry" and fresh_id: "id_to_address registry gid = None" and
    fresh: "games s ga = None" and bet: "0 < bet" and
    g: "g = \<lparr>creator = c, player1 = Some c, player2 = None, phase = PHASE_WAITING,
        player1_move_hash = None, player2_move_hash = None, player1_move = None,
        player2_move = None, result = RESULT_PENDING, winner = None,
        created_at = now_seconds s, game_type = ty, short_id = gid, bet_amount = bet,
        player1_deposit = bet, player2_deposit = 0, prize_withdrawn = False\<rparr>" and
    games': "games s' = (games s)(ga \<mapsto> g)" and
    registry': "registry' = registry\<lparr>
       id_to_address := (id_to_address registry)(gid \<mapsto> ga),
       next_counter := counter',
       public_games := (if ty = GAME_TYPE_PUBLIC then public_games registry @ [gid]
                        else public_games registry)\<rparr>" and
    regs': "registries s' = (registries s)(r \<mapsto> registry')"
    by (rule create_game_Inr) simp
  have g_ok: "game_inv g" "present g"
    using bet by (simp_all add: g game_inv_new present_new)
  have ids': "id_to_address registry' = (id_to_address registry)(gid \<mapsto> ga)"
    by (simp add: registry')
  have reg': "registered s' q i b \<longleftrightarrow> (q = r \<and> i = gid \<and> b = ga) \<or> registered s q i b" for q i b
    using r fresh_id by (auto simp: registered_def regs' ids' split: option.splits)
  have not_ga: "b \<noteq> ga" if "registered s q i b" for q i b
    using chain_inv_registered[OF inv that] fresh by auto
  have 1: "present h" if "games s' b = Some h" for b h
    using that g_ok inv by (cases "b = ga") (auto simp: games' chain_inv_def)
  have 2: "\<exists>h. games s' b = Some h \<and> game_inv h" if "registered s' q i b" for q i b
    using that g_ok inv not_ga unfolding reg' by (cases "b = ga") (auto simp: games' chain_inv_def)
  have 3: "q = q' \<and> i = i'" if "registered s' q i b" "registered s' q' i' b" for q i q' i' b
    using that inv not_ga unfolding reg' chain_inv_def by blast
  show ?thesis
    unfolding chain_inv_def using 1 2 3 by blast
qed

text \<open>What a successful \<open>cancel_game\<close> does.\<close>

lemma cancel_game_Inr:
  assumes "cancel_game p gid r s = Inr s'"
  obtains a g registry b where
    "borrow_game gid r s = Inr (a, g)" and "registries s r = Some registry" and
    "creator g = p" and "phase g = PHASE_WAITING" and "player2 g = None" and
    "u64_add (balance s p) (player1_deposit g) = Inr b" and
    "games s' = (games s)(a \<mapsto> g\<lparr>player1_deposit := 0\<rparr>)" and
    "registries s' = (registries s)(r \<mapsto> registry\<lparr>
       id_to_address := (id_to_address registry)(gid := None),
       public_games := (if game_type g = GAME_TYPE_PUBLIC
                        then remove1 gid (public_games registry)
                        else public_games registry)\<rparr>)" and
    "balance s' = (balance s)(p := b)" and
    "events s' = events s @ [GameCancelled gid p (bet_amount g)]"
proof (cases "borrow_game gid r s")
  case (Inl e)
  then show ?thesis using assms by (simp add: cancel_game_def)
next
  case (Inr ag)
  then obtain a g where borrow: "borrow_game gid r s = Inr (a, g)"
    by (cases ag) simp
  obtain registry where r: "registries s r = Some registry"
    using borrow by (cases "registries s r") (simp_all add: borrow_game_def)
  have pre: "creator g = p" "phase g = PHASE_WAITING" "player2 g = None"
    using assms borrow by (simp_all add: cancel_game_def split: if_splits)
  obtain b where b: "u64_add (balance s p) (player1_deposit g) = Inr b"
    using assms borrow pre
    by (cases "u64_add (balance s p) (player1_deposit g)") (simp_all add: cancel_game_def)
  have "s' = s\<lparr>registries := (registries s)(r \<mapsto> registry\<lparr>
       id_to_address := (id_to_address registry)(gid := None),
       public_games := (if game_type g = GAME_TYPE_PUBLIC
                        then remove1 gid (public_games registry)
                        else public_games registry)\<rparr>),
     games := (games s)(a \<mapsto> g\<lparr>player1_deposit := 0\<rparr>),
     balance := (balance s)(p := b),
     events := events s @ [GameCancelled gid p (bet_amount g)]\<rparr>"
    using assms borrow pre b r by (simp add: cancel_game_def Let_def)
  then show ?thesis
    using that[OF borrow r pre b] by simp
qed

lemma chain_inv_cancel_game:
  assumes inv: "chain_inv s" and step: "cancel_game p gid r s = Inr s'"
  shows "chain_inv s'"
proof -
  from step obtain a g registry registry' where
    borrow: "borrow_game gid r s = Inr (a, g)" and
    r: "registries s r = Some registry" and
    games': "games s' = (games s)(a \<mapsto> g\<lparr>player1_deposit := 0\<rparr>)" and
    registry': "registry' = registry\<lparr>
       id_to_address := (id_to_address registry)(gid := None),
       public_games := (if game_type g = GAME_TYPE_PUBLIC
                        then remove1 gid (public_games registry)
                        else public_games registry)\<rparr>" and
    regs': "registries s' = (registries s)(r \<mapsto> registry')"
    by (rule cancel_game_Inr) simp
  have ids': "id_to_address registry' = (id_to_address registry)(gid := None)"
    by (simp add: registry')
  have a: "registered s r gid a" "games s a = Some g"
    using borrow by (simp_all add: borrow_game_registered)
  have reg': "registered s' q i b \<longleftrightarrow> registered s q i b \<and> \<not> (q = r \<and> i = gid)" for q i b
    using r by (auto simp: registered_def regs' ids' split: option.splits)
  have not_a: "b \<noteq> a" if "registered s' q i b" for q i b
    using inv that a(1) unfolding reg' chain_inv_def by blast
  have "present g"
    using inv a(2) by (auto simp: chain_inv_def)
  then have 1: "present h" if "games s' b = Some h" for b h
    using that inv by (cases "b = a") (auto simp: games' chain_inv_def)
  have 2: "\<exists>h. games s' b = Some h \<and> game_inv h" if "registered s' q i b" for q i b
  proof -
    have "b \<noteq> a" using not_a that by blast
    moreover have "registered s q i b" using that by (simp add: reg')
    ultimately show ?thesis using inv by (auto simp: games' chain_inv_def)
  qed
  have 3: "q = q' \<and> i = i'" if "registered s' q i b" "registered s' q' i' b" for q i q' i' b
    using that inv unfolding reg' chain_inv_def by blast
  show ?thesis
    unfolding chain_inv_def using 1 2 3 by blast
qed

lemma chain_inv_step:
  assumes "chain_inv s" and "borrow_game gid r s = Inr (a, g)"
    and "registries s' = registries s \<and> (\<forall>b. b \<noteq> a \<longrightarrow> games s' b = games s b)"
    and "game_inv g \<and> present g \<Longrightarrow>
         case games s' a of None \<Rightarrow> False | Some g' \<Rightarrow> game_inv g' \<and> present g'"
  shows "chain_inv s'"
proof -
  have "game_inv g \<and> present g"
    using assms(1,2) by (rule chain_inv_borrow)
  then show ?thesis
    using assms chain_inv_update by blast
qed

lemma reachable_chain_inv: "reachable H s \<Longrightarrow> chain_inv s"
proof (induction rule: reachable.induct)
  case (genesis b t)
  show ?case by (rule chain_inv_genesis)
next
  case (environment s b t)
  then show ?case by (simp add: chain_inv_environment)
next
  case (init_registry s a s')
  then show ?case by (simp add: chain_inv_init_registry)
next
  case (create_game s ga c ty bet r s')
  then show ?case using chain_inv_create_game by blast
next
  case (join_game s p gid r s')
  then obtain a g where borrow: "borrow_game gid r s = Inr (a, g)"
    using join_game_borrow by blast
  show ?case
  proof (rule chain_inv_step[OF join_game.IH borrow])
    show "registries s' = registries s \<and> (\<forall>b. b \<noteq> a \<longrightarrow> games s' b = games s b)"
      by (rule join_game_frame[OF join_game.hyps(2) borrow])
    show "case games s' a of None \<Rightarrow> False | Some g' \<Rightarrow> game_inv g' \<and> present g'"
      if "game_inv g \<and> present g"
      by (rule join_game_game[OF join_game.hyps(2) borrow that])
  qed
next
  case (commit_move s p gid h r s')
  then obtain a g where borrow: "borrow_game gid r s = Inr (a, g)"
    using commit_move_borrow by blast
  show ?case
  proof (rule chain_inv_step[OF commit_move.IH borrow])
    show "registries s' = registries s \<and> (\<forall>b. b \<noteq> a \<longrightarrow> games s' b = games s b)"
      by (rule commit_move_frame[OF commit_move.hyps(2) borrow])
    show "case games s' a of None \<Rightarrow> False | Some g' \<Rightarrow> game_inv g' \<and> present g'"
      if "game_inv g \<and> present g"
      by (rule commit_move_game[OF commit_move.hyps(2) borrow that])
  qed
next
  case (reveal_move s p gid m n r s')
  then obtain a g where borrow: "borrow_game gid r s = Inr (a, g)"
    using reveal_move_borrow by blast
  show ?case
  proof (rule chain_inv_step[OF reveal_move.IH borrow])
    show "registries s' = registries s \<and> (\<forall>b. b \<noteq> a \<longrightarrow> games s' b = games s b)"
      by (rule reveal_move_frame[OF reveal_move.hyps(2) borrow])
    show "case games s' a of None \<Rightarrow> False | Some g' \<Rightarrow> game_inv g' \<and> present g'"
      if "game_inv g \<and> present g"
      by (rule reveal_move_game[OF reveal_move.hyps(2) borrow that])
  qed
next
  case (withdraw_prize s p gid r s')
  then obtain a g where borrow: "borrow_game gid r s = Inr (a, g)"
    using withdraw_prize_borrow by blast
  show ?case
  proof (rule chain_inv_step[OF withdraw_prize.IH borrow])
    show "registries s' = registries s \<and> (\<forall>b. b \<noteq> a \<longrightarrow> games s' b = games s b)"
      by (rule withdraw_prize_frame[OF withdraw_prize.hyps(2) borrow])
    show "case games s' a of None \<Rightarrow> False | Some g' \<Rightarrow> game_inv g' \<and> present g'"
      if "game_inv g \<and> present g"
      by (rule withdraw_prize_game[OF withdraw_prize.hyps(2) borrow that])
  qed
next
  case (cancel_game s p gid r s')
  then show ?case using chain_inv_cancel_game by blast
qed

section \<open>The game on the small chain, step by step\<close>

lemma borrow_game_scene [simp]:
  "borrow_game demo_id owner (scene g b1 b2 evs) = Inr (table, g)"
  by (simp add: borrow_game_def scene_def)

lemma step_init: "init_registry owner genesis_chain = Inr st_reg"
  by (simp add: init_registry_def genesis_chain_def st_reg_def)

lemma demo_id_generated: "generate_game_id demo_hash 1 alice 0 = Inr demo_id"
  by (simp add: generate_game_id_def demo_hash_def bcs_address_def bcs_u64_def id_loop.simps
        upt_rec alice_def demo_id_def)

lemma step_create:
  "create_game demo_hash table alice GAME_TYPE_PUBLIC 50 owner st_reg = Inr st_wait"
  by (simp add: create_game_def st_reg_def genesis_chain_def st_wait_def scene_def g_wait_def
        ev_wait_def u64_add_def demo_id_generated now_seconds_def fun_eq_iff)

lemma step_join: "join_game bob demo_id owner st_wait = Inr st_commit"
  by (simp add: join_game_def st_wait_def st_commit_def g_wait_def g_commit_def ev_commit_def
        u64_add_def)
     (simp add: scene_def fun_eq_iff alice_def bob_def)


lemma step_commit1:
  "commit_move alice demo_id (create_move_hash demo_hash m1 nonce1) owner st_commit = Inr (st_c1 m1)"
  by (simp add: commit_move_def st_commit_def st_c1_def g_commit_def g_wait_def g_c1_def ev_c1_def
        Let_def)
     (simp add: scene_def fun_eq_iff alice_def bob_def)

lemma step_commit2:
  "commit_move bob demo_id (create_move_hash demo_hash m2 nonce2) owner (st_c1 m1)
     = Inr (st_reveal m1 m2)"
  by (simp add: commit_move_def st_c1_def st_reveal_def g_commit_def g_wait_def g_c1_def
        g_reveal_def ev_reveal_def Let_def alice_def bob_def)
     (simp add: scene_def fun_eq_iff alice_def bob_def)

lemma step_reveal1:
  "m1 \<le> SCISSORS \<Longrightarrow>
   reveal_move demo_hash alice demo_id m1 nonce1 owner (st_reveal m1 m2) = Inr (st_r1 m1 m2)"
  by (simp add: reveal_move_def st_reveal_def st_r1_def g_commit_def g_wait_def g_c1_def
        g_reveal_def g_r1_def ev_r1_def Let_def create_move_hash_def bcs_u8_def)
     (simp add: scene_def fun_eq_iff alice_def bob_def)

lemma step_reveal2:
  "m2 \<le> SCISSORS \<Longrightarrow>
   reveal_move demo_hash bob demo_id m2 nonce2 owner (st_r1 m1 m2) = Inr (st_fin m1 m2)"
  by (simp add: reveal_move_def st_r1_def st_fin_def g_commit_def g_wait_def g_c1_def
        g_reveal_def g_r1_def g_fin_def ev_fin_def Let_def create_move_hash_def bcs_u8_def
        alice_def bob_def u64_add_def)
     (simp add: scene_def fun_eq_iff alice_def bob_def)

lemma g_fin_win:
  "result (g_fin ROCK SCISSORS) = RESULT_PLAYER1_WINS"
  "winner (g_fin ROCK SCISSORS) = Some alice"
  by (simp_all add: g_fin_def finish_game_def g_r1_def g_reveal_def g_c1_def g_commit_def g_wait_def)

lemma g_fin_draw:
  "result (g_fin PAPER PAPER) = RESULT_DRAW"
  "winner (g_fin PAPER PAPER) = None"
  by (simp_all add: g_fin_def finish_game_def g_r1_def g_reveal_def g_c1_def g_commit_def g_wait_def)

lemma g_fin_sel:
  "phase (g_fin m1 m2) = PHASE_FINISHED"
  "player1 (g_fin m1 m2) = Some alice"
  "player2 (g_fin m1 m2) = Some bob"
  "bet_amount (g_fin m1 m2) = 50"
  "player1_deposit (g_fin m1 m2) = 50"
  "player2_deposit (g_fin m1 m2) = 50"
  "prize_withdrawn (g_fin m1 m2) = False"
  by (simp_all add: g_fin_def g_r1_def g_reveal_def g_c1_def g_commit_def g_wait_def)

lemma step_withdraw_win:
  "withdraw_prize alice demo_id owner (st_fin ROCK SCISSORS) = Inr st_paid"
  by (simp add: withdraw_prize_def st_fin_def st_paid_def g_paid_def g_fin_win g_fin_sel u64_add_def)
     (simp add: scene_def fun_eq_iff alice_def bob_def)

lemma step_withdraw_draw:
  "withdraw_prize alice demo_id owner (st_fin PAPER PAPER) = Inr st_refunded"
  by (simp add: withdraw_prize_def st_fin_def st_refunded_def g_refunded_def g_fin_draw g_fin_sel u64_add_def)
     (simp add: scene_def fun_eq_iff alice_def bob_def)

lemma reachable_st_reg: "reachable demo_hash st_reg"
  using reachable.init_registry[OF reachable.genesis step_init[unfolded genesis_chain_def]] .

lemma reachable_st_wait: "reachable demo_hash st_wait"
  using reachable.create_game[OF reachable_st_reg step_create] .

lemma reachable_st_commit: "reachable demo_hash st_commit"
  using reachable.join_game[OF reachable_st_wait step_join] .

lemma reachable_st_reveal: "reachable demo_hash (st_reveal m1 m2)"
  using reachable.commit_move[OF reachable.commit_move[OF reachable_st_commit step_commit1]
    step_commit2] .

lemma reachable_st_r1: "m1 \<le> SCISSORS \<Longrightarrow> reachable demo_hash (st_r1 m1 m2)"
  using reachable.reveal_move[OF reachable_st_reveal step_reveal1] .

lemma reachable_st_fin:
  "m1 \<le> SCISSORS \<Longrightarrow> m2 \<le> SCISSORS \<Longrightarrow> reachable demo_hash (st_fin m1 m2)"
  using reachable.reveal_move[OF reachable_st_r1 step_reveal2] .

lemma reachable_st_paid: "reachable demo_hash st_paid"
  using reachable.withdraw_prize[OF reachable_st_fin step_withdraw_win] by simp

lemma reachable_st_refunded: "reachable demo_hash st_refunded"
  using reachable.withdraw_prize[OF reachable_st_fin step_withdraw_draw] by simp

lemma step_cancel: "cancel_game alice demo_id owner st_wait = Inr st_cancelled"
  by (simp add: cancel_game_def st_wait_def st_cancelled_def g_wait_def u64_add_def)
     (simp add: scene_def fun_eq_iff alice_def bob_def)

section \<open>Escrow and withdrawal\<close>

lemma withdraw_prize_Inr:
  assumes "withdraw_prize p gid r s = Inr s'" and "borrow_game gid r s = Inr (a, g)"
  shows "borrow_game gid r s' =
           Inr (a, if result g = RESULT_DRAW
                   then (if player1 g = Some p then g\<lparr>player1_deposit := 0\<rparr>
                         else g\<lparr>player2_deposit := 0\<rparr>)
                   else g\<lparr>player1_deposit := 0, player2_deposit := 0, prize_withdrawn := True\<rparr>)"
  using assms
  by (auto simp: withdraw_prize_def borrow_game_def split: option.splits sum.splits if_splits)

lemma game_inv_escrow:
  assumes "game_inv g"
  shows "joined g = (if phase g = PHASE_WAITING then 1 else 2)"
    and "phase g \<noteq> PHASE_FINISHED \<Longrightarrow>
         unat (player1_deposit g) + unat (player2_deposit g) = unat (bet_amount g) * joined g"
    and "phase g = PHASE_FINISHED \<Longrightarrow> result g \<noteq> RESULT_DRAW \<Longrightarrow> \<not> prize_withdrawn g \<Longrightarrow>
         unat (player1_deposit g) + unat (player2_deposit g) = unat (bet_amount g) * joined g"
    and "phase g = PHASE_FINISHED \<Longrightarrow> result g = RESULT_DRAW \<Longrightarrow>
         (player1_deposit g = bet_amount g \<or> player1_deposit g = 0) \<and>
         (player2_deposit g = bet_amount g \<or> player2_deposit g = 0)"
  using assms by (auto simp: game_inv_def joined_def split: if_splits)

text \<open>
  Claim C1, as the code has it. In every reachable chain, for every game a registry points
  to: one player has joined in the waiting phase and two afterwards; until the game is
  finished the two deposits add up to the bet times the number of players (the bet after
  \<open>create_game\<close>, twice the bet after \<open>join_game\<close>); a finished game that a player has
  won holds twice the bet until the prize is withdrawn; in a finished draw each deposit is
  either still the bet or already refunded. A successful \<open>withdraw_prize\<close> on a win
  empties both deposits; on a draw it empties the deposit of the caller only and leaves
  the deposit of the other player in the game.
\<close>

theorem escrow_conservation:
  assumes "reachable H s" and "borrow_game gid r s = Inr (a, g)"
  shows "joined g = (if phase g = PHASE_WAITING then 1 else 2) \<and>
         (phase g \<noteq> PHASE_FINISHED \<longrightarrow>
            unat (player1_deposit g) + unat (player2_deposit g) = unat (bet_amount g) * joined g) \<and>
         (phase g = PHASE_FINISHED \<and> result g \<noteq> RESULT_DRAW \<and> \<not> prize_withdrawn g \<longrightarrow>
            unat (player1_deposit g) + unat (player2_deposit g) = unat (bet_amount g) * joined g) \<and>
         (phase g = PHASE_FINISHED \<and> result g = RESULT_DRAW \<longrightarrow>
            (player1_deposit g = bet_amount g \<or> player1_deposit g = 0) \<and>
            (player2_deposit g = bet_amount g \<or> player2_deposit g = 0)) \<and>
         (withdraw_prize p gid r s = Inr s' \<longrightarrow>
            (\<exists>g'. borrow_game gid r s' = Inr (a, g') \<and>
               (if result g = RESULT_DRAW
                then (if player1 g = Some p
                      then player1_deposit g' = 0 \<and> player2_deposit g' = player2_deposit g
                      else player2_deposit g' = 0 \<and> player1_deposit g' = player1_deposit g)
                else player1_deposit g' = 0 \<and> player2_deposit g' = 0)))"
proof -
  have inv: "game_inv g"
    using chain_inv_borrow[OF reachable_chain_inv[OF assms(1)] assms(2)] by simp
  have w: "\<exists>g'. borrow_game gid r s' = Inr (a, g') \<and>
               (if result g = RESULT_DRAW
                then (if player1 g = Some p
                      then player1_deposit g' = 0 \<and> player2_deposit g' = player2_deposit g
                      else player2_deposit g' = 0 \<and> player1_deposit g' = player1_deposit g)
                else player1_deposit g' = 0 \<and> player2_deposit g' = 0)"
    if "withdraw_prize p gid r s = Inr s'"
    using withdraw_prize_Inr[OF that assms(2)] by simp
  show ?thesis
    using game_inv_escrow[OF inv] w by simp
qed

text \<open>
  Claim C1 as stated fails on a draw: after paper against paper Alice withdraws
  successfully, and the game still holds the 50 of Bob.
\<close>

theorem escrow_conservation_counterexample:
  "reachable demo_hash (st_fin PAPER PAPER) \<and>
   withdraw_prize alice demo_id owner (st_fin PAPER PAPER) = Inr st_refunded \<and>
   borrow_game demo_id owner st_refunded = Inr (table, g_refunded) \<and>
   unat (player1_deposit g_refunded) + unat (player2_deposit g_refunded) = 50"
  using reachable_st_fin[of PAPER PAPER] step_withdraw_draw
  by (simp add: st_refunded_def g_refunded_def g_fin_sel)

text \<open>
  The game of Alice and Bob: 50 in escrow after creation, 100 after Bob has joined, and
  nothing after Alice has won with rock against scissors and withdrawn.
\<close>

theorem escrow_conservation_witness:
  "reachable demo_hash st_wait \<and> borrow_game demo_id owner st_wait = Inr (table, g_wait) \<and>
   unat (player1_deposit g_wait) + unat (player2_deposit g_wait) = unat (bet_amount g_wait) * 1 \<and>
   reachable demo_hash st_commit \<and> borrow_game demo_id owner st_commit = Inr (table, g_commit) \<and>
   unat (player1_deposit g_commit) + unat (player2_deposit g_commit)
     = unat (bet_amount g_commit) * 2 \<and>
   reachable demo_hash (st_fin ROCK SCISSORS) \<and>
   borrow_game demo_id owner (st_fin ROCK SCISSORS) = Inr (table, g_fin ROCK SCISSORS) \<and>
   withdraw_prize alice demo_id owner (st_fin ROCK SCISSORS) = Inr st_paid \<and>
   borrow_game demo_id owner st_paid = Inr (table, g_paid) \<and>
   player1_deposit g_paid = 0 \<and> player2_deposit g_paid = 0"
  using escrow_conservation[of demo_hash st_wait demo_id owner table g_wait]
    escrow_conservation[of demo_hash st_commit demo_id owner table g_commit]
    escrow_conservation[of demo_hash "st_fin ROCK SCISSORS" demo_id owner table
      "g_fin ROCK SCISSORS" alice st_paid]
    reachable_st_wait reachable_st_commit reachable_st_fin[of ROCK SCISSORS] step_withdraw_win
  by (simp add: st_wait_def st_commit_def st_fin_def st_paid_def g_wait_def g_commit_def
        g_paid_def)

lemma u64_add_zero [simp]: "u64_add b 0 = Inr b" "u64_add 0 b = Inr b"
  using unsigned_less[of b, where 'a = nat] by (simp_all add: u64_add_def)

lemma second_withdraw_win:
  assumes "withdraw_prize p gid r s = Inr s'" and "borrow_game gid r s = Inr (a, g)"
    and "result g \<noteq> RESULT_DRAW"
  shows "withdraw_prize p gid r s' = Inl E_ALREADY_WITHDRAWN"
proof -
  have fin: "phase g = PHASE_FINISHED"
    using assms(1,2) by (simp add: withdraw_prize_def split: if_splits)
  show ?thesis
    using withdraw_prize_Inr[OF assms(1,2)] assms(3) fin by (simp add: withdraw_prize_def)
qed

lemma second_withdraw_draw:
  assumes "withdraw_prize p gid r s = Inr s'" and "borrow_game gid r s = Inr (a, g)"
    and "result g = RESULT_DRAW"
  shows "withdraw_prize p gid r s' = Inr s'"
proof -
  have fin: "phase g = PHASE_FINISHED" "\<not> prize_withdrawn g"
    using assms(1,2) by (simp_all add: withdraw_prize_def split: if_splits)
  have p: "\<exists>p1. player1 g = Some p1 \<and> (p1 = p \<or> player2 g = Some p)"
    using assms by (auto simp: withdraw_prize_def fin split: option.splits sum.splits if_splits)
  let ?g' = "if player1 g = Some p then g\<lparr>player1_deposit := 0\<rparr> else g\<lparr>player2_deposit := 0\<rparr>"
  have b': "borrow_game gid r s' = Inr (a, ?g')"
    using withdraw_prize_Inr[OF assms(1,2)] assms(3) by simp
  then have games': "games s' a = Some ?g'"
    by (simp add: borrow_game_registered)
  have same: "s'\<lparr>games := (games s')(a \<mapsto> ?g'), balance := (balance s')(p := balance s' p)\<rparr> = s'"
    using games' by (simp add: fun_upd_idem)
  show ?thesis
    using b' p fin assms(3) same
    by (auto simp: withdraw_prize_def split: option.splits)
qed

text \<open>
  Claim C2, as the code has it. After a successful \<open>withdraw_prize\<close> by a caller, a second
  call by the same caller on the same game aborts with \<open>E_ALREADY_WITHDRAWN\<close> when the game
  was won; when the game was a draw the second call does not abort, it pays out nothing
  and returns the chain as it is. Either way the chain after the second transaction,
  with all its balances and deposits, is the chain before it.
\<close>

theorem no_double_withdrawal:
  assumes "withdraw_prize p gid r s = Inr s'" and "borrow_game gid r s = Inr (a, g)"
  shows "(result g \<noteq> RESULT_DRAW \<longrightarrow> withdraw_prize p gid r s' = Inl E_ALREADY_WITHDRAWN) \<and>
         (result g = RESULT_DRAW \<longrightarrow> withdraw_prize p gid r s' = Inr s') \<and>
         execute (withdraw_prize p gid r) s' = s'"
  using second_withdraw_win[OF assms] second_withdraw_draw[OF assms]
  by (cases "result g = RESULT_DRAW") (simp_all add: execute_def)

text \<open>
  Claim C2 as stated fails on a draw: Alice has taken her deposit back, and her second
  call succeeds instead of aborting with \<open>E_ALREADY_WITHDRAWN\<close>.
\<close>

theorem no_double_withdrawal_counterexample:
  "borrow_game demo_id owner (st_fin PAPER PAPER) = Inr (table, g_fin PAPER PAPER) \<and>
   phase (g_fin PAPER PAPER) = PHASE_FINISHED \<and> result (g_fin PAPER PAPER) = RESULT_DRAW \<and>
   withdraw_prize alice demo_id owner (st_fin PAPER PAPER) = Inr st_refunded \<and>
   withdraw_prize alice demo_id owner st_refunded = Inr st_refunded \<and>
   withdraw_prize alice demo_id owner st_refunded \<noteq> Inl E_ALREADY_WITHDRAWN"
proof -
  have "withdraw_prize alice demo_id owner st_refunded = Inr st_refunded"
    by (simp add: withdraw_prize_def st_refunded_def g_refunded_def g_fin_draw g_fin_sel)
       (simp add: scene_def fun_eq_iff alice_def bob_def)
  then show ?thesis
    using step_withdraw_draw by (simp add: st_fin_def g_fin_sel g_fin_draw)
qed

text \<open>
  Alice withdraws twice after winning, and twice after a draw.
\<close>

theorem no_double_withdrawal_witness:
  "withdraw_prize alice demo_id owner (st_fin ROCK SCISSORS) = Inr st_paid \<and>
   borrow_game demo_id owner (st_fin ROCK SCISSORS) = Inr (table, g_fin ROCK SCISSORS) \<and>
   result (g_fin ROCK SCISSORS) \<noteq> RESULT_DRAW \<and>
   withdraw_prize alice demo_id owner st_paid = Inl E_ALREADY_WITHDRAWN \<and>
   execute (withdraw_prize alice demo_id owner) st_paid = st_paid \<and>
   withdraw_prize alice demo_id owner (st_fin PAPER PAPER) = Inr st_refunded \<and>
   borrow_game demo_id owner (st_fin PAPER PAPER) = Inr (table, g_fin PAPER PAPER) \<and>
   result (g_fin PAPER PAPER) = RESULT_DRAW \<and>
   withdraw_prize alice demo_id owner st_refunded = Inr st_refunded \<and>
   execute (withdraw_prize alice demo_id owner) st_refunded = st_refunded"
  using no_double_withdrawal[of alice demo_id owner "st_fin ROCK SCISSORS" st_paid table
      "g_fin ROCK SCISSORS"]
    no_double_withdrawal[of alice demo_id owner "st_fin PAPER PAPER" st_refunded table
      "g_fin PAPER PAPER"]
    step_withdraw_win step_withdraw_draw g_fin_win g_fin_draw
  by (simp add: st_fin_def)

section \<open>Winner determination\<close>

lemma u8_le_2: "(m::u8) \<le> 2 \<Longrightarrow> m = 0 \<or> m = 1 \<or> m = 2"
  unfolding word_le_nat_alt word_unat_eq_iff by auto

lemma finish_game_outcome:
  assumes "m1 \<le> SCISSORS" and "m2 \<le> SCISSORS"
  shows "(result (finish_game m1 m2 g) = RESULT_PLAYER1_WINS \<longleftrightarrow>
            m1 = ROCK \<and> m2 = SCISSORS \<or> m1 = SCISSORS \<and> m2 = PAPER \<or> m1 = PAPER \<and> m2 = ROCK) \<and>
         (result (finish_game m1 m2 g) = RESULT_PLAYER2_WINS \<longleftrightarrow>
            m2 = ROCK \<and> m1 = SCISSORS \<or> m2 = SCISSORS \<and> m1 = PAPER \<or> m2 = PAPER \<and> m1 = ROCK) \<and>
         (result (finish_game m1 m2 g) = RESULT_DRAW \<longleftrightarrow> m1 = m2) \<and>
         winner (finish_game m1 m2 g) =
           (if result (finish_game m1 m2 g) = RESULT_PLAYER1_WINS then player1 g
            else if result (finish_game m1 m2 g) = RESULT_PLAYER2_WINS then player2 g
            else winner g)"
  using u8_le_2[OF assms(1)] u8_le_2[OF assms(2)]
  by (elim disjE) (simp_all add: finish_game_def Let_def)

lemma last_reveal_Inr:
  assumes "borrow_game gid r s = Inr (a, g)" and "last_reveal H p m n g m1 m2"
  shows "\<exists>s'. reveal_move H p gid m n r s = Inr s' \<and>
           borrow_game gid r s' =
             Inr (a, finish_game m1 m2
                       (if player1 g = Some p then g\<lparr>player1_move := Some m\<rparr>
                        else g\<lparr>player2_move := Some m\<rparr>))"
proof -
  have m: "m \<le> SCISSORS"
    using assms(2) by (auto simp: last_reveal_def split: if_splits)
  have reg: "registered s r gid a"
    using assms(1) by (simp add: borrow_game_registered)
  let ?g1 = "if player1 g = Some p then g\<lparr>player1_move := Some m\<rparr> else g\<lparr>player2_move := Some m\<rparr>"
  have moves: "player1_move ?g1 = Some m1" "player2_move ?g1 = Some m2"
    using assms(2) by (auto simp: last_reveal_def split: if_splits)
  have sum: "u64_add (player1_deposit g) (player2_deposit g)
               = Inr (player1_deposit g + player2_deposit g)"
    using assms(2) by (simp add: last_reveal_def u64_add_def)
  have "reveal_move H p gid m n r s =
          Inr (s\<lparr>games := (games s)(a \<mapsto> finish_game m1 m2 ?g1),
                 events := events s @
                   [MoveRevealed gid p m,
                    GameFinished gid (winner (finish_game m1 m2 ?g1))
                      (result (finish_game m1 m2 ?g1)) m1 m2
                      (player1_deposit g + player2_deposit g)]\<rparr>)"
    using assms m moves sum
    by (auto simp: reveal_move_def last_reveal_def Let_def)
  moreover have "borrow_game gid r
          (s\<lparr>games := (games s)(a \<mapsto> finish_game m1 m2 ?g1),
             events := events s @
                   [MoveRevealed gid p m,
                    GameFinished gid (winner (finish_game m1 m2 ?g1))
                      (result (finish_game m1 m2 ?g1)) m1 m2
                      (player1_deposit g + player2_deposit g)]\<rparr>)
        = Inr (a, finish_game m1 m2 ?g1)"
    using reg by (simp add: borrow_game_registered registered_def)
  ultimately show ?thesis
    by simp
qed

text \<open>
  Claim C3. Take the reveal that completes a game, with the valid moves \<open>m1\<close> of player 1
  and \<open>m2\<close> of player 2, and the reveal that completes a game with the moves the other
  way round. Both calls of \<open>reveal_move\<close> succeed and finish their game, which then stores
  the two moves. The result of the first game is the relation rock beats scissors,
  scissors beats paper, paper beats rock: player 1 wins exactly on these three pairs,
  player 2 wins exactly on their mirror images, and the result is a draw exactly when
  the moves are equal. One player wins the first game exactly when the other player wins
  the second. The winner is the player the result names (on a draw the winner stays as
  it was, unset).
\<close>

theorem winner_determination:
  assumes "borrow_game gid r s = Inr (a, g)" and "last_reveal H p m n g m1 m2"
    and "borrow_game gid' r' t = Inr (b, h)" and "last_reveal H' q k n' h m2 m1"
  shows "\<exists>s' g' t' h'.
           reveal_move H p gid m n r s = Inr s' \<and> borrow_game gid r s' = Inr (a, g') \<and>
           reveal_move H' q gid' k n' r' t = Inr t' \<and> borrow_game gid' r' t' = Inr (b, h') \<and>
           phase g' = PHASE_FINISHED \<and>
           player1_move g' = Some m1 \<and> player2_move g' = Some m2 \<and>
           (result g' = RESULT_PLAYER1_WINS \<longleftrightarrow>
              m1 = ROCK \<and> m2 = SCISSORS \<or> m1 = SCISSORS \<and> m2 = PAPER \<or> m1 = PAPER \<and> m2 = ROCK) \<and>
           (result g' = RESULT_PLAYER2_WINS \<longleftrightarrow>
              m2 = ROCK \<and> m1 = SCISSORS \<or> m2 = SCISSORS \<and> m1 = PAPER \<or> m2 = PAPER \<and> m1 = ROCK) \<and>
           (result g' = RESULT_DRAW \<longleftrightarrow> m1 = m2) \<and>
           (result g' = RESULT_PLAYER1_WINS \<longleftrightarrow> result h' = RESULT_PLAYER2_WINS) \<and>
           (result g' = RESULT_PLAYER2_WINS \<longleftrightarrow> result h' = RESULT_PLAYER1_WINS) \<and>
           (result g' = RESULT_DRAW \<longleftrightarrow> result h' = RESULT_DRAW) \<and>
           winner g' = (if result g' = RESULT_PLAYER1_WINS then player1 g
                        else if result g' = RESULT_PLAYER2_WINS then player2 g
                        else winner g)"
proof -
  define g1 where
    "g1 = (if player1 g = Some p then g\<lparr>player1_move := Some m\<rparr> else g\<lparr>player2_move := Some m\<rparr>)"
  define h1 where
    "h1 = (if player1 h = Some q then h\<lparr>player1_move := Some k\<rparr> else h\<lparr>player2_move := Some k\<rparr>)"
  define g' where "g' = finish_game m1 m2 g1"
  define h' where "h' = finish_game m2 m1 h1"
  have v: "m1 \<le> SCISSORS" "m2 \<le> SCISSORS"
    using assms(2) by (simp_all add: last_reveal_def)
  have moves: "player1_move g' = Some m1" "player2_move g' = Some m2"
    using assms(2) by (auto simp: g'_def g1_def last_reveal_def split: if_splits)
  have fin: "phase g' = PHASE_FINISHED"
    by (simp add: g'_def)
  have same: "player1 g1 = player1 g" "player2 g1 = player2 g" "winner g1 = winner g"
    by (simp_all add: g1_def)
  obtain s' where s': "reveal_move H p gid m n r s = Inr s'" "borrow_game gid r s' = Inr (a, g')"
    using last_reveal_Inr[OF assms(1,2)] unfolding g'_def g1_def by blast
  obtain t' where t': "reveal_move H' q gid' k n' r' t = Inr t'" "borrow_game gid' r' t' = Inr (b, h')"
    using last_reveal_Inr[OF assms(3,4)] unfolding h'_def h1_def by blast
  note G = finish_game_outcome[OF v, of g1, folded g'_def, unfolded same]
  note K = finish_game_outcome[OF v(2) v(1), of h1, folded h'_def]
  have r1: "result g' = RESULT_PLAYER1_WINS \<longleftrightarrow>
              m1 = ROCK \<and> m2 = SCISSORS \<or> m1 = SCISSORS \<and> m2 = PAPER \<or> m1 = PAPER \<and> m2 = ROCK"
    using G by blast
  have r2: "result g' = RESULT_PLAYER2_WINS \<longleftrightarrow>
              m2 = ROCK \<and> m1 = SCISSORS \<or> m2 = SCISSORS \<and> m1 = PAPER \<or> m2 = PAPER \<and> m1 = ROCK"
    using G by blast
  have r3: "result g' = RESULT_DRAW \<longleftrightarrow> m1 = m2"
    using G by blast
  have w: "winner g' = (if result g' = RESULT_PLAYER1_WINS then player1 g
                        else if result g' = RESULT_PLAYER2_WINS then player2 g
                        else winner g)"
    using G by blast
  have a1: "result g' = RESULT_PLAYER1_WINS \<longleftrightarrow> result h' = RESULT_PLAYER2_WINS"
    using r1 K by blast
  have a2: "result g' = RESULT_PLAYER2_WINS \<longleftrightarrow> result h' = RESULT_PLAYER1_WINS"
    using r2 K by blast
  have a3: "result g' = RESULT_DRAW \<longleftrightarrow> result h' = RESULT_DRAW"
    using r3 K by auto
  show ?thesis
    using s' t' fin moves r1 r2 r3 a1 a2 a3 w by blast
qed

text \<open>
  Bob completes the game of rock against scissors, which Alice wins, and the game of
  scissors against rock, which he wins.
\<close>

theorem winner_determination_witness:
  "borrow_game demo_id owner (st_r1 ROCK SCISSORS) = Inr (table, g_r1 ROCK SCISSORS) \<and>
   last_reveal demo_hash bob SCISSORS nonce2 (g_r1 ROCK SCISSORS) ROCK SCISSORS \<and>
   borrow_game demo_id owner (st_r1 SCISSORS ROCK) = Inr (table, g_r1 SCISSORS ROCK) \<and>
   last_reveal demo_hash bob ROCK nonce2 (g_r1 SCISSORS ROCK) SCISSORS ROCK \<and>
   reveal_move demo_hash bob demo_id SCISSORS nonce2 owner (st_r1 ROCK SCISSORS)
     = Inr (st_fin ROCK SCISSORS) \<and>
   borrow_game demo_id owner (st_fin ROCK SCISSORS) = Inr (table, g_fin ROCK SCISSORS) \<and>
   reveal_move demo_hash bob demo_id ROCK nonce2 owner (st_r1 SCISSORS ROCK)
     = Inr (st_fin SCISSORS ROCK) \<and>
   borrow_game demo_id owner (st_fin SCISSORS ROCK) = Inr (table, g_fin SCISSORS ROCK) \<and>
   phase (g_fin ROCK SCISSORS) = PHASE_FINISHED \<and>
   result (g_fin ROCK SCISSORS) = RESULT_PLAYER1_WINS \<and>
   winner (g_fin ROCK SCISSORS) = Some alice \<and>
   result (g_fin SCISSORS ROCK) = RESULT_PLAYER2_WINS"
proof -
  have b: "borrow_game demo_id owner (st_r1 ROCK SCISSORS) = Inr (table, g_r1 ROCK SCISSORS)"
    "borrow_game demo_id owner (st_r1 SCISSORS ROCK) = Inr (table, g_r1 SCISSORS ROCK)"
    "borrow_game demo_id owner (st_fin ROCK SCISSORS) = Inr (table, g_fin ROCK SCISSORS)"
    "borrow_game demo_id owner (st_fin SCISSORS ROCK) = Inr (table, g_fin SCISSORS ROCK)"
    by (simp_all add: st_r1_def st_fin_def)
  have l: "last_reveal demo_hash bob SCISSORS nonce2 (g_r1 ROCK SCISSORS) ROCK SCISSORS"
    "last_reveal demo_hash bob ROCK nonce2 (g_r1 SCISSORS ROCK) SCISSORS ROCK"
    by (simp_all add: last_reveal_def g_r1_def g_reveal_def g_c1_def g_commit_def g_wait_def
          create_move_hash_def bcs_u8_def alice_def bob_def)
  show ?thesis
    using winner_determination[OF b(1) l(1) b(2) l(2)] b l
      step_reveal2[of SCISSORS ROCK] step_reveal2[of ROCK SCISSORS]
    by (auto simp: g_r1_def g_reveal_def g_c1_def g_commit_def g_wait_def)
qed

section \<open>Commitments\<close>

lemma reveal_move_accept:
  assumes "borrow_game gid r s = Inr (a, g)" and "phase g = PHASE_REVEAL"
    and "player1 g = Some p \<or> player2 g = Some p"
    and "(if player1 g = Some p then player1_move_hash g else player2_move_hash g)
           = Some (create_move_hash H m n)"
    and "m \<le> SCISSORS"
  shows "reveal_move H p gid m n r s \<noteq> Inl E_INVALID_MOVE_REVEAL"
    and "unat (player1_deposit g) + unat (player2_deposit g) < 2 ^ 64 \<Longrightarrow>
         \<exists>s'. reveal_move H p gid m n r s = Inr s'"
  using assms
  by (auto simp: reveal_move_def Let_def create_move_hash_def bcs_u8_def u64_add_def
           split: option.splits sum.splits)

lemma reveal_move_reject:
  assumes "borrow_game gid r s = Inr (a, g)" and "phase g = PHASE_REVEAL"
    and "player1 g = Some p \<or> player2 g = Some p"
    and "(if player1 g = Some p then player1_move_hash g else player2_move_hash g)
           = Some (create_move_hash H m n)"
    and "m' \<le> SCISSORS"
    and "create_move_hash H m' n' \<noteq> create_move_hash H m n"
  shows "reveal_move H p gid m' n' r s = Inl E_INVALID_MOVE_REVEAL"
  using assms
  by (auto simp: reveal_move_def Let_def create_move_hash_def bcs_u8_def)

lemma reveal_move_invalid:
  assumes "borrow_game gid r s = Inr (a, g)" and "phase g = PHASE_REVEAL" and "\<not> m' \<le> SCISSORS"
  shows "reveal_move H p gid m' n' r s = Inl E_INVALID_MOVE"
  using assms by (simp add: reveal_move_def)

subsection \<open>A commitment stays\<close>

lemma commit_move_committed:
  assumes "commit_move p gid h r s = Inr s'"
  shows "\<exists>a g. borrow_game gid r s' = Inr (a, g) \<and> committed p h g"
proof -
  obtain a g where b: "borrow_game gid r s = Inr (a, g)"
    using commit_move_borrow[OF assms] by blast
  then have reg: "registered s r gid a"
    by (simp add: borrow_game_registered)
  have same: "registries s' = registries s"
    using commit_move_frame[OF assms b] by simp
  have reg': "registered s' r gid a"
    using reg by (simp add: registered_def same)
  have "case games s' a of None \<Rightarrow> False | Some g' \<Rightarrow> committed p h g'"
    using assms b
    by (auto simp: commit_move_def committed_def Let_def split: if_splits)
  then obtain g' where "games s' a = Some g'" "committed p h g'"
    by (auto split: option.splits)
  then show ?thesis
    using reg' borrow_game_registered[of gid r s' a g'] by blast
qed

lemma join_game_committed:
  assumes "join_game q gid' r' s = Inr s'" and "borrow_game gid' r' s = Inr (a, g)"
    and "committed p h g"
  shows "case games s' a of None \<Rightarrow> False | Some g' \<Rightarrow> committed p h g'"
  using assms
  by (auto simp: join_game_def committed_def split: sum.splits if_splits option.splits)

lemma commit_move_keeps_committed:
  assumes "commit_move q gid' h' r' s = Inr s'" and "borrow_game gid' r' s = Inr (a, g)"
    and "committed p h g"
  shows "case games s' a of None \<Rightarrow> False | Some g' \<Rightarrow> committed p h g'"
  using assms
  by (auto simp: commit_move_def committed_def Let_def split: if_splits)

lemma committed_move_update [simp]:
  "committed p h (g\<lparr>player1_move := x\<rparr>) = committed p h g"
  "committed p h (g\<lparr>player2_move := x\<rparr>) = committed p h g"
  "committed p h (g\<lparr>player1_deposit := y\<rparr>) = committed p h g"
  "committed p h (g\<lparr>player2_deposit := y\<rparr>) = committed p h g"
  "committed p h (g\<lparr>prize_withdrawn := z\<rparr>) = committed p h g"
  by (simp_all add: committed_def)

lemma committed_finish_game:
  "committed p h g \<Longrightarrow> committed p h (finish_game m1 m2 g)"
  by (auto simp: committed_def split: if_splits)

lemma borrow_game_environment:
  "borrow_game gid r (s\<lparr>balance := b, now_microseconds := t\<rparr>) = borrow_game gid r s"
  by (simp add: borrow_game_def split: option.splits)

lemma reveal_move_committed:
  assumes "reveal_move H q gid' m n r' s = Inr s'" and "borrow_game gid' r' s = Inr (a, g)"
    and "committed p h g"
  shows "case games s' a of None \<Rightarrow> False | Some g' \<Rightarrow> committed p h g'"
  using assms
  by (auto simp: reveal_move_def Let_def committed_finish_game
           split: if_splits option.splits sum.splits)

lemma withdraw_prize_committed:
  assumes "withdraw_prize q gid' r' s = Inr s'" and "borrow_game gid' r' s = Inr (a, g)"
    and "committed p h g"
  shows "case games s' a of None \<Rightarrow> False | Some g' \<Rightarrow> committed p h g'"
  using assms
  by (auto simp: withdraw_prize_def split: sum.splits if_splits option.splits)

text \<open>A game that holds a commitment stays where it is, with the commitment.\<close>

lemma holds_update:
  assumes "holds p h gid r s" and "borrow_game gid' r' s = Inr (a, g)"
    and "registries s' = registries s \<and> (\<forall>b. b \<noteq> a \<longrightarrow> games s' b = games s b)"
    and "committed p h g \<Longrightarrow> case games s' a of None \<Rightarrow> False | Some g' \<Rightarrow> committed p h g'"
  shows "holds p h gid r s'"
proof -
  obtain a0 g0 where b0: "borrow_game gid r s = Inr (a0, g0)" and c0: "committed p h g0"
    using assms(1) by (auto simp: holds_def split: sum.splits)
  then have reg: "registered s r gid a0" and g0: "games s a0 = Some g0"
    by (simp_all add: borrow_game_registered)
  have reg': "registered s' r gid a0"
    using reg assms(3) by (simp add: registered_def)
  show ?thesis
  proof (cases "a0 = a")
    case True
    then have "g0 = g"
      using assms(2) g0 by (simp add: borrow_game_registered)
    then obtain g' where "games s' a = Some g'" "committed p h g'"
      using assms(4) c0 by (auto split: option.splits)
    then show ?thesis
      using reg' True borrow_game_registered[of gid r s' a g'] by (simp add: holds_def)
  next
    case False
    then have "games s' a0 = Some g0"
      using assms(3) g0 by simp
    then show ?thesis
      using reg' c0 borrow_game_registered[of gid r s' a0 g0] by (simp add: holds_def)
  qed
qed

lemma holds_step:
  assumes "step H s s'" and "holds p h gid r s"
  shows "holds p h gid r s'"
  using assms
proof (induction rule: step.induct)
  case environment
  then show ?case
    by (simp add: holds_def borrow_game_environment)
next
  case (init_registry a s s')
  obtain a0 g0 where b0: "borrow_game gid r s = Inr (a0, g0)" and c0: "committed p h g0"
    using init_registry.prems by (auto simp: holds_def split: sum.splits)
  have "borrow_game gid r s' = Inr (a0, g0)"
    using init_registry.hyps b0
    by (auto simp: init_registry_def borrow_game_def split: if_splits option.splits)
  then show ?case
    using c0 by (simp add: holds_def)
next
  case (create_game ga c ty bet r0 s s')
  obtain a0 g0 where b0: "borrow_game gid r s = Inr (a0, g0)" and c0: "committed p h g0"
    using create_game.prems by (auto simp: holds_def split: sum.splits)
  then have reg: "registered s r gid a0" and g0: "games s a0 = Some g0"
    by (simp_all add: borrow_game_registered)
  from create_game.hyps obtain registry gid0 counter' g registry' where
    r0: "registries s r0 = Some registry" and fresh_id: "id_to_address registry gid0 = None" and
    fresh: "games s ga = None" and
    g: "g = \<lparr>creator = c, player1 = Some c, player2 = None, phase = PHASE_WAITING,
        player1_move_hash = None, player2_move_hash = None, player1_move = None,
        player2_move = None, result = RESULT_PENDING, winner = None,
        created_at = now_seconds s, game_type = ty, short_id = gid0, bet_amount = bet,
        player1_deposit = bet, player2_deposit = 0, prize_withdrawn = False\<rparr>" and
    games': "games s' = (games s)(ga \<mapsto> g)" and
    registry': "registry' = registry\<lparr>
       id_to_address := (id_to_address registry)(gid0 \<mapsto> ga),
       next_counter := counter',
       public_games := (if ty = GAME_TYPE_PUBLIC then public_games registry @ [gid0]
                        else public_games registry)\<rparr>" and
    regs': "registries s' = (registries s)(r0 \<mapsto> registry')"
    by (rule create_game_Inr) simp
  have ids': "id_to_address registry' = (id_to_address registry)(gid0 \<mapsto> ga)"
    by (simp add: registry')
  have "a0 \<noteq> ga"
    using g0 fresh by auto
  then have "games s' a0 = Some g0"
    using g0 by (simp add: games')
  moreover have "registered s' r gid a0"
    using reg r0 fresh_id by (auto simp: registered_def regs' ids' split: option.splits)
  ultimately have "borrow_game gid r s' = Inr (a0, g0)"
    by (simp add: borrow_game_registered)
  then show ?case
    using c0 by (simp add: holds_def)
next
  case (join_game q gid' r' s s')
  obtain a g where b: "borrow_game gid' r' s = Inr (a, g)"
    using join_game_borrow[OF join_game.hyps] by blast
  show ?case
    using holds_update[OF join_game.prems b join_game_frame[OF join_game.hyps b]]
      join_game_committed[OF join_game.hyps b] by blast
next
  case (commit_move q gid' h' r' s s')
  obtain a g where b: "borrow_game gid' r' s = Inr (a, g)"
    using commit_move_borrow[OF commit_move.hyps] by blast
  show ?case
    using holds_update[OF commit_move.prems b commit_move_frame[OF commit_move.hyps b]]
      commit_move_keeps_committed[OF commit_move.hyps b] by blast
next
  case (reveal_move q gid' m n r' s s')
  obtain a g where b: "borrow_game gid' r' s = Inr (a, g)"
    using reveal_move_borrow[OF reveal_move.hyps] by blast
  show ?case
    using holds_update[OF reveal_move.prems b reveal_move_frame[OF reveal_move.hyps b]]
      reveal_move_committed[OF reveal_move.hyps b] by blast
next
  case (withdraw_prize q gid' r' s s')
  obtain a g where b: "borrow_game gid' r' s = Inr (a, g)"
    using withdraw_prize_borrow[OF withdraw_prize.hyps] by blast
  show ?case
    using holds_update[OF withdraw_prize.prems b withdraw_prize_frame[OF withdraw_prize.hyps b]]
      withdraw_prize_committed[OF withdraw_prize.hyps b] by blast
next
  case (cancel_game q gid' r' s s')
  obtain a0 g0 where b0: "borrow_game gid r s = Inr (a0, g0)" and c0: "committed p h g0"
    using cancel_game.prems by (auto simp: holds_def split: sum.splits)
  then have reg: "registered s r gid a0" and g0: "games s a0 = Some g0"
    by (simp_all add: borrow_game_registered)
  from cancel_game.hyps obtain a g registry registry' where
    b: "borrow_game gid' r' s = Inr (a, g)" and
    r': "registries s r' = Some registry" and
    waiting: "phase g = PHASE_WAITING" and
    games': "games s' = (games s)(a \<mapsto> g\<lparr>player1_deposit := 0\<rparr>)" and
    registry': "registry' = registry\<lparr>
       id_to_address := (id_to_address registry)(gid' := None),
       public_games := (if game_type g = GAME_TYPE_PUBLIC
                        then remove1 gid' (public_games registry)
                        else public_games registry)\<rparr>" and
    regs': "registries s' = (registries s)(r' \<mapsto> registry')"
    by (rule cancel_game_Inr) simp
  have ids': "id_to_address registry' = (id_to_address registry)(gid' := None)"
    by (simp add: registry')
  have ga: "registered s r' gid' a" "games s a = Some g"
    using b by (simp_all add: borrow_game_registered)
  have ne: "a0 \<noteq> a"
    using c0 g0 ga(2) waiting by (auto simp: committed_def)
  then have "games s' a0 = Some g0"
    using g0 by (simp add: games')
  moreover have "registered s' r gid a0"
    using reg ga(1) ne r' by (auto simp: registered_def regs' ids' split: option.splits)
  ultimately have "borrow_game gid r s' = Inr (a0, g0)"
    by (simp add: borrow_game_registered)
  then show ?case
    using c0 by (simp add: holds_def)
qed

lemma holds_steps:
  assumes "(step H)\<^sup>*\<^sup>* s s'" and "holds p h gid r s"
  shows "holds p h gid r s'"
  using assms by (induction rule: rtranclp_induct) (auto intro: holds_step)

text \<open>
  Claim C4, as the code has it. Let a player commit, with success, the hash that
  \<open>create_move_hash\<close> gives for a valid move \<open>m\<close> and a nonce \<open>n\<close>, and take any later
  chain in which the game is in the reveal phase. The hash is still stored for the
  player. The bytes that \<open>reveal_move\<close> hashes for \<open>(m, n)\<close> are the bytes hashed at
  commitment, the move byte followed by the nonce, so revealing \<open>(m, n)\<close> is never
  rejected as a mismatch, and the call succeeds (it can only still abort when the sum of
  the two deposits, computed once both moves are revealed, overflows a \<open>u64\<close>). Revealing
  \<open>(m', n')\<close> whose bytes hash differently aborts: with \<open>E_INVALID_MOVE_REVEAL\<close> when \<open>m'\<close>
  is a valid move, and with \<open>E_INVALID_MOVE\<close> when it is not, since the move is checked
  before the hash.
\<close>

theorem commitment_round_trip:
  assumes "commit_move p gid (create_move_hash H m n) r s0 = Inr s1"
    and "(step H)\<^sup>*\<^sup>* s1 s"
    and "borrow_game gid r s = Inr (a, g)" and "phase g = PHASE_REVEAL"
    and "m \<le> SCISSORS"
  shows "create_move_hash H m n = H ([] @ bcs_u8 m @ n) \<and>
         (player1 g = Some p \<or> player2 g = Some p) \<and>
         (if player1 g = Some p then player1_move_hash g else player2_move_hash g)
           = Some (create_move_hash H m n) \<and>
         reveal_move H p gid m n r s \<noteq> Inl E_INVALID_MOVE_REVEAL \<and>
         (unat (player1_deposit g) + unat (player2_deposit g) < 2 ^ 64 \<longrightarrow>
            (\<exists>s'. reveal_move H p gid m n r s = Inr s')) \<and>
         (create_move_hash H m' n' \<noteq> create_move_hash H m n \<longrightarrow>
            reveal_move H p gid m' n' r s =
              (if m' \<le> SCISSORS then Inl E_INVALID_MOVE_REVEAL else Inl E_INVALID_MOVE))"
proof -
  have "holds p (create_move_hash H m n) gid r s1"
    using commit_move_committed[OF assms(1)] by (auto simp: holds_def)
  then have "holds p (create_move_hash H m n) gid r s"
    using holds_steps[OF assms(2)] by simp
  then have c: "committed p (create_move_hash H m n) g"
    using assms(3) by (simp add: holds_def)
  then have part: "player1 g = Some p \<or> player2 g = Some p"
    and stored: "(if player1 g = Some p then player1_move_hash g else player2_move_hash g)
                   = Some (create_move_hash H m n)"
    by (simp_all add: committed_def)
  have bytes: "create_move_hash H m n = H ([] @ bcs_u8 m @ n)"
    by (simp add: create_move_hash_def bcs_u8_def)
  have other: "reveal_move H p gid m' n' r s =
                 (if m' \<le> SCISSORS then Inl E_INVALID_MOVE_REVEAL else Inl E_INVALID_MOVE)"
    if "create_move_hash H m' n' \<noteq> create_move_hash H m n"
  proof (cases "m' \<le> SCISSORS")
    case True
    then show ?thesis
      using reveal_move_reject[OF assms(3,4) part stored True that] by simp
  next
    case False
    then show ?thesis
      using reveal_move_invalid[OF assms(3,4) False] by simp
  qed
  show ?thesis
    using bytes part stored reveal_move_accept[OF assms(3,4) part stored assms(5)] other
    by blast
qed

text \<open>
  Claim C4 as stated fails for a value that is no move: Alice has committed rock, the
  bytes of the value 3 with her nonce hash differently, and revealing them aborts with
  \<open>E_INVALID_MOVE\<close>, not with \<open>E_INVALID_MOVE_REVEAL\<close>.
\<close>

theorem commitment_round_trip_counterexample:
  "commit_move alice demo_id (create_move_hash demo_hash ROCK nonce1) owner st_commit
     = Inr (st_c1 ROCK) \<and>
   commit_move bob demo_id (create_move_hash demo_hash SCISSORS nonce2) owner (st_c1 ROCK)
     = Inr (st_reveal ROCK SCISSORS) \<and>
   create_move_hash demo_hash 3 nonce1 \<noteq> create_move_hash demo_hash ROCK nonce1 \<and>
   reveal_move demo_hash alice demo_id 3 nonce1 owner (st_reveal ROCK SCISSORS)
     = Inl E_INVALID_MOVE \<and>
   reveal_move demo_hash alice demo_id 3 nonce1 owner (st_reveal ROCK SCISSORS)
     \<noteq> Inl E_INVALID_MOVE_REVEAL"
  using step_commit1[of ROCK] step_commit2[of SCISSORS ROCK]
  by (simp add: reveal_move_def st_reveal_def g_reveal_def create_move_hash_def demo_hash_def
        nonce1_def)

text \<open>
  Alice commits rock with her nonce and Bob commits after her: the hash of Alice is
  still stored, revealing rock is accepted, revealing paper with the same nonce is
  rejected as a mismatch, and revealing the value 3 as no move.
\<close>

theorem commitment_round_trip_witness:
  "commit_move alice demo_id (create_move_hash demo_hash ROCK nonce1) owner st_commit
     = Inr (st_c1 ROCK) \<and>
   (step demo_hash)\<^sup>*\<^sup>* (st_c1 ROCK) (st_reveal ROCK SCISSORS) \<and>
   borrow_game demo_id owner (st_reveal ROCK SCISSORS) = Inr (table, g_reveal ROCK SCISSORS) \<and>
   phase (g_reveal ROCK SCISSORS) = PHASE_REVEAL \<and>
   player1_move_hash (g_reveal ROCK SCISSORS) = Some (create_move_hash demo_hash ROCK nonce1) \<and>
   reveal_move demo_hash alice demo_id ROCK nonce1 owner (st_reveal ROCK SCISSORS)
     = Inr (st_r1 ROCK SCISSORS) \<and>
   create_move_hash demo_hash PAPER nonce1 \<noteq> create_move_hash demo_hash ROCK nonce1 \<and>
   reveal_move demo_hash alice demo_id PAPER nonce1 owner (st_reveal ROCK SCISSORS)
     = Inl E_INVALID_MOVE_REVEAL \<and>
   create_move_hash demo_hash 3 nonce1 \<noteq> create_move_hash demo_hash ROCK nonce1 \<and>
   reveal_move demo_hash alice demo_id 3 nonce1 owner (st_reveal ROCK SCISSORS)
     = Inl E_INVALID_MOVE"
proof -
  have steps: "(step demo_hash)\<^sup>*\<^sup>* (st_c1 ROCK) (st_reveal ROCK SCISSORS)"
    using step.commit_move[OF step_commit2[of SCISSORS ROCK], of demo_hash] by (rule r_into_rtranclp)
  have g: "phase (g_reveal ROCK SCISSORS) = PHASE_REVEAL"
    "player1 (g_reveal ROCK SCISSORS) = Some alice"
    by (simp_all add: g_reveal_def g_c1_def g_commit_def g_wait_def)
  have b: "borrow_game demo_id owner (st_reveal ROCK SCISSORS) = Inr (table, g_reveal ROCK SCISSORS)"
    by (simp add: st_reveal_def)
  have ne: "create_move_hash demo_hash PAPER nonce1 \<noteq> create_move_hash demo_hash ROCK nonce1"
    "create_move_hash demo_hash 3 nonce1 \<noteq> create_move_hash demo_hash ROCK nonce1"
    by (simp_all add: create_move_hash_def demo_hash_def nonce1_def)
  have v: "ROCK \<le> SCISSORS" "PAPER \<le> SCISSORS" "\<not> (3::u8) \<le> SCISSORS"
    by simp_all
  note t = commitment_round_trip[OF step_commit1[of ROCK] steps b g(1) v(1)]
  note c2 = conjunct2
  have stored: "player1_move_hash (g_reveal ROCK SCISSORS)
                  = Some (create_move_hash demo_hash ROCK nonce1)"
    using t[THEN c2, THEN c2, THEN conjunct1] g(2) by simp
  have rej: "reveal_move demo_hash alice demo_id PAPER nonce1 owner (st_reveal ROCK SCISSORS)
               = Inl E_INVALID_MOVE_REVEAL"
    using t[of PAPER nonce1, THEN c2, THEN c2, THEN c2, THEN c2, THEN c2, THEN mp, OF ne(1)] v(2)
    by simp
  have inv: "reveal_move demo_hash alice demo_id 3 nonce1 owner (st_reveal ROCK SCISSORS)
               = Inl E_INVALID_MOVE"
    using t[of 3 nonce1, THEN c2, THEN c2, THEN c2, THEN c2, THEN c2, THEN mp, OF ne(2)] v(3)
    by simp
  show ?thesis
    by (intro conjI step_commit1 steps b g(1) stored step_reveal1 v(1) ne rej inv)
qed

section \<open>Events\<close>

lemma create_game_events:
  "create_game H ga c ty bet r s = Inr s' \<Longrightarrow> \<exists>gid. events s' = events s @ [GameCreated gid ga c ty bet]"
  by (erule create_game_Inr) simp

lemma cancel_game_events:
  "cancel_game p gid r s = Inr s' \<Longrightarrow> \<exists>refund. events s' = events s @ [GameCancelled gid p refund]"
  by (erule cancel_game_Inr) simp

lemma join_game_events:
  "join_game p gid r s = Inr s' \<Longrightarrow> \<exists>amount. events s' = events s @ [PlayerJoined gid p amount]"
  by (auto simp: join_game_def split: sum.splits if_splits option.splits)

lemma commit_move_events:
  "commit_move p gid h r s = Inr s' \<Longrightarrow> events s' = events s @ [MoveCommitted gid p]"
  by (auto simp: commit_move_def Let_def split: sum.splits if_splits option.splits)

lemma reveal_move_events:
  assumes "reveal_move H p gid m n r s = Inr s'"
  shows "if phase_of gid r s' = Some PHASE_FINISHED
         then \<exists>w res m1 m2 total.
                events s' = events s @ [MoveRevealed gid p m, GameFinished gid w res m1 m2 total]
         else events s' = events s @ [MoveRevealed gid p m]"
  using assms
  by (auto simp: reveal_move_def phase_of_def borrow_game_def Let_def
           split: sum.splits if_splits option.splits)

lemma withdraw_prize_events:
  assumes "withdraw_prize p gid r s = Inr s'" and "result_of gid r s \<noteq> Some RESULT_DRAW"
  shows "\<exists>amount. events s' = events s @ [PrizeWithdrawn gid p amount]"
  using assms
  by (auto simp: withdraw_prize_def result_of_def split: sum.splits if_splits option.splits)

text \<open>
  Claim C5, as the code has it. A successful \<open>create_game\<close>, \<open>join_game\<close>, \<open>cancel_game\<close> or
  \<open>commit_move\<close> emits exactly one event, and so does a successful \<open>withdraw_prize\<close> on a
  game that is not a draw. A successful \<open>reveal_move\<close> emits \<open>MoveRevealed\<close> alone when the
  game goes on, and \<open>MoveRevealed\<close> followed by \<open>GameFinished\<close>, two events, when it
  finishes the game. A call that aborts emits none.
\<close>

theorem event_discipline:
  "(create_game H ga c ty bet r s = Inr s' \<longrightarrow>
      (\<exists>gid. events s' = events s @ [GameCreated gid ga c ty bet])) \<and>
   (join_game p gid r s = Inr s' \<longrightarrow>
      (\<exists>amount. events s' = events s @ [PlayerJoined gid p amount])) \<and>
   (cancel_game p gid r s = Inr s' \<longrightarrow>
      (\<exists>refund. events s' = events s @ [GameCancelled gid p refund])) \<and>
   (commit_move p gid h r s = Inr s' \<longrightarrow> events s' = events s @ [MoveCommitted gid p]) \<and>
   (reveal_move H p gid m n r s = Inr s' \<longrightarrow>
      (if phase_of gid r s' = Some PHASE_FINISHED
       then \<exists>w res m1 m2 total.
              events s' = events s @ [MoveRevealed gid p m, GameFinished gid w res m1 m2 total]
       else events s' = events s @ [MoveRevealed gid p m])) \<and>
   (withdraw_prize p gid r s = Inr s' \<and> result_of gid r s \<noteq> Some RESULT_DRAW \<longrightarrow>
      (\<exists>amount. events s' = events s @ [PrizeWithdrawn gid p amount])) \<and>
   (f s = Inl e \<longrightarrow> events (execute f s) = events s)"
  using create_game_events[of H ga c ty bet r s s'] join_game_events[of p gid r s s']
    cancel_game_events[of p gid r s s'] commit_move_events[of p gid h r s s']
    reveal_move_events[of H p gid m n r s s'] withdraw_prize_events[of p gid r s s']
  by (simp add: execute_def)

text \<open>
  Claim C5 as stated fails on the reveal that finishes the game: the reveal of Bob emits
  two events.
\<close>

theorem event_discipline_counterexample:
  "reveal_move demo_hash bob demo_id SCISSORS nonce2 owner (st_r1 ROCK SCISSORS)
     = Inr (st_fin ROCK SCISSORS) \<and>
   events (st_fin ROCK SCISSORS) = events (st_r1 ROCK SCISSORS) @
     [MoveRevealed demo_id bob SCISSORS,
      GameFinished demo_id (Some alice) RESULT_PLAYER1_WINS ROCK SCISSORS 100]"
  using step_reveal2[of SCISSORS ROCK]
  by (simp add: st_fin_def st_r1_def scene_def ev_fin_def g_fin_win)

text \<open>
  A \<open>withdraw_prize\<close> on a draw emits no event.
\<close>

lemma withdraw_draw_no_event:
  "withdraw_prize alice demo_id owner (st_fin PAPER PAPER) = Inr st_refunded \<and>
   events st_refunded = events (st_fin PAPER PAPER)"
  using step_withdraw_draw by (simp add: st_refunded_def st_fin_def scene_def)

text \<open>
  The events of every step of the game of Alice and Bob, of a cancellation, and of a call
  that aborts.
\<close>

theorem event_discipline_witness:
  "create_game demo_hash table alice GAME_TYPE_PUBLIC 50 owner st_reg = Inr st_wait \<and>
   events st_wait = events st_reg @ [GameCreated demo_id table alice GAME_TYPE_PUBLIC 50] \<and>
   join_game bob demo_id owner st_wait = Inr st_commit \<and>
   events st_commit = events st_wait @ [PlayerJoined demo_id bob 50] \<and>
   cancel_game alice demo_id owner st_wait = Inr st_cancelled \<and>
   events st_cancelled = events st_wait @ [GameCancelled demo_id alice 50] \<and>
   commit_move alice demo_id (create_move_hash demo_hash ROCK nonce1) owner st_commit
     = Inr (st_c1 ROCK) \<and>
   events (st_c1 ROCK) = events st_commit @ [MoveCommitted demo_id alice] \<and>
   reveal_move demo_hash alice demo_id ROCK nonce1 owner (st_reveal ROCK SCISSORS)
     = Inr (st_r1 ROCK SCISSORS) \<and>
   phase_of demo_id owner (st_r1 ROCK SCISSORS) \<noteq> Some PHASE_FINISHED \<and>
   events (st_r1 ROCK SCISSORS) = events (st_reveal ROCK SCISSORS) @ [MoveRevealed demo_id alice ROCK] \<and>
   reveal_move demo_hash bob demo_id SCISSORS nonce2 owner (st_r1 ROCK SCISSORS)
     = Inr (st_fin ROCK SCISSORS) \<and>
   phase_of demo_id owner (st_fin ROCK SCISSORS) = Some PHASE_FINISHED \<and>
   length (events (st_fin ROCK SCISSORS)) = length (events (st_r1 ROCK SCISSORS)) + 2 \<and>
   withdraw_prize alice demo_id owner (st_fin ROCK SCISSORS) = Inr st_paid \<and>
   result_of demo_id owner (st_fin ROCK SCISSORS) \<noteq> Some RESULT_DRAW \<and>
   events st_paid = events (st_fin ROCK SCISSORS) @ [PrizeWithdrawn demo_id alice 100] \<and>
   join_game carol demo_id owner st_commit = Inl E_WRONG_PHASE \<and>
   events (execute (join_game carol demo_id owner) st_commit) = events st_commit"
proof -
  note c2 = conjunct2
  have x: "join_game carol demo_id owner st_commit = Inl E_WRONG_PHASE"
    by (simp add: join_game_def st_commit_def g_commit_def g_wait_def)
  have p1: "phase_of demo_id owner (st_r1 ROCK SCISSORS) \<noteq> Some PHASE_FINISHED"
    by (simp add: phase_of_def st_r1_def g_r1_def g_reveal_def)
  have p2: "phase_of demo_id owner (st_fin ROCK SCISSORS) = Some PHASE_FINISHED"
    by (simp add: phase_of_def st_fin_def g_fin_sel)
  have r: "result_of demo_id owner (st_fin ROCK SCISSORS) \<noteq> Some RESULT_DRAW"
    by (simp add: result_of_def st_fin_def g_fin_win)
  have e1: "events st_wait = events st_reg @ [GameCreated demo_id table alice GAME_TYPE_PUBLIC 50]"
    using event_discipline[THEN conjunct1, THEN mp, OF step_create]
    by (simp add: st_wait_def st_reg_def genesis_chain_def scene_def ev_wait_def)
  have e2: "events st_commit = events st_wait @ [PlayerJoined demo_id bob 50]"
    using event_discipline[THEN c2, THEN conjunct1, THEN mp, OF step_join]
    by (simp add: st_wait_def st_commit_def scene_def ev_commit_def)
  have e3: "events st_cancelled = events st_wait @ [GameCancelled demo_id alice 50]"
    using event_discipline[THEN c2, THEN c2, THEN conjunct1, THEN mp, OF step_cancel]
    by (simp add: st_wait_def st_cancelled_def scene_def)
  have e4: "events (st_c1 ROCK) = events st_commit @ [MoveCommitted demo_id alice]"
    using event_discipline[THEN c2, THEN c2, THEN c2, THEN conjunct1, THEN mp, OF step_commit1] .
  have e5: "events (st_r1 ROCK SCISSORS)
      = events (st_reveal ROCK SCISSORS) @ [MoveRevealed demo_id alice ROCK]"
    using event_discipline[THEN c2, THEN c2, THEN c2, THEN c2, THEN conjunct1, THEN mp,
        OF step_reveal1[of ROCK SCISSORS]] p1
    by simp
  have e6: "length (events (st_fin ROCK SCISSORS)) = length (events (st_r1 ROCK SCISSORS)) + 2"
    using event_discipline[THEN c2, THEN c2, THEN c2, THEN c2, THEN conjunct1, THEN mp,
        OF step_reveal2[of SCISSORS ROCK]] p2
    by auto
  have e7: "events st_paid = events (st_fin ROCK SCISSORS) @ [PrizeWithdrawn demo_id alice 100]"
    using event_discipline[THEN c2, THEN c2, THEN c2, THEN c2, THEN c2, THEN conjunct1, THEN mp,
        OF conjI[OF step_withdraw_win r]]
    by (simp add: st_paid_def st_fin_def scene_def)
  have e8: "events (execute (join_game carol demo_id owner) st_commit) = events st_commit"
    using event_discipline[where f = "join_game carol demo_id owner" and s = st_commit
        and e = E_WRONG_PHASE, THEN c2, THEN c2, THEN c2, THEN c2, THEN c2, THEN c2, THEN mp, OF x] .
  show ?thesis
    using step_create step_join step_cancel step_commit1[of ROCK] step_reveal1[of ROCK SCISSORS]
      step_reveal2[of SCISSORS ROCK] step_withdraw_win x p1 p2 r e1 e2 e3 e4 e5 e6 e7 e8
    by simp
qed

section \<open>The query of the revealed moves\<close>

text \<open>
  Claim C6 as stated fails after the first reveal: only Alice has revealed, and the query
  returns her move.
\<close>

theorem revealed_move_visible_counterexample:
  "reveal_move demo_hash alice demo_id ROCK nonce1 owner (st_reveal ROCK SCISSORS)
     = Inr (st_r1 ROCK SCISSORS) \<and>
   get_game_moves demo_id owner (st_r1 ROCK SCISSORS) = Inr (Some ROCK, None)"
  using step_reveal1[of ROCK SCISSORS]
  by (simp add: get_game_moves_def st_r1_def g_r1_def g_reveal_def g_c1_def g_commit_def g_wait_def)

text \<open>
  Claim C6, as the code has it. \<open>get_game_moves\<close> returns the two stored moves as they are:
  after a successful \<open>reveal_move\<close> of the move \<open>m\<close> it returns \<open>m\<close> in the place of the
  player who revealed and leaves the place of the other player as it was, so a move is
  returned as soon as its player has revealed it, whether or not the other has.
\<close>

theorem revealed_move_visible:
  assumes "reveal_move H p gid m n r s = Inr s'" and "borrow_game gid r s = Inr (a, g)"
  shows "get_game_moves gid r s' =
           Inr (if player1 g = Some p then (Some m, player2_move g) else (player1_move g, Some m))"
  using assms
  by (auto simp: get_game_moves_def reveal_move_def borrow_game_def Let_def
           split: option.splits sum.splits if_splits)

text \<open>
  The reveal of Alice, seen through the query.
\<close>

theorem revealed_move_visible_witness:
  "reveal_move demo_hash alice demo_id ROCK nonce1 owner (st_reveal ROCK SCISSORS)
     = Inr (st_r1 ROCK SCISSORS) \<and>
   borrow_game demo_id owner (st_reveal ROCK SCISSORS) = Inr (table, g_reveal ROCK SCISSORS) \<and>
   player1 (g_reveal ROCK SCISSORS) = Some alice \<and>
   player2_move (g_reveal ROCK SCISSORS) = None \<and>
   get_game_moves demo_id owner (st_r1 ROCK SCISSORS) = Inr (Some ROCK, None)"
  using revealed_move_visible[of demo_hash alice demo_id ROCK nonce1 owner
      "st_reveal ROCK SCISSORS" "st_r1 ROCK SCISSORS" table "g_reveal ROCK SCISSORS"]
    step_reveal1[of ROCK SCISSORS]
  by (simp add: st_reveal_def g_reveal_def g_c1_def g_commit_def g_wait_def)

section \<open>Joining a game twice\<close>

text \<open>
  Claim C7 as stated fails: after Bob has joined, the attempt of Carol aborts with
  \<open>E_WRONG_PHASE\<close>, not with \<open>E_GAME_FULL\<close>.
\<close>

theorem second_join_counterexample:
  "join_game bob demo_id owner st_wait = Inr st_commit \<and>
   join_game carol demo_id owner st_commit = Inl E_WRONG_PHASE \<and>
   join_game carol demo_id owner st_commit \<noteq> Inl E_GAME_FULL"
  using step_join by (simp add: join_game_def st_commit_def g_commit_def g_wait_def)

text \<open>
  Claim C7, as the code has it. In every reachable chain, a \<open>join_game\<close> on a game that a
  second player has joined aborts with \<open>E_WRONG_PHASE\<close>: the game has left the waiting
  phase, and the phase is checked before the second seat.
\<close>

theorem second_join_wrong_phase:
  assumes "reachable H s" and "borrow_game gid r s = Inr (a, g)" and "player2 g \<noteq> None"
  shows "join_game p gid r s = Inl E_WRONG_PHASE"
proof -
  have "game_inv g"
    using chain_inv_borrow[OF reachable_chain_inv[OF assms(1)] assms(2)] by simp
  then have "phase g \<noteq> PHASE_WAITING"
    using assms(3) by (auto simp: game_inv_def)
  then show ?thesis
    using assms(2) by (simp add: join_game_def)
qed

text \<open>
  Carol tries to join the game of Alice and Bob.
\<close>

theorem second_join_wrong_phase_witness:
  "reachable demo_hash st_commit \<and>
   borrow_game demo_id owner st_commit = Inr (table, g_commit) \<and>
   player2 g_commit \<noteq> None \<and>
   join_game carol demo_id owner st_commit = Inl E_WRONG_PHASE"
  using second_join_wrong_phase[of demo_hash st_commit demo_id owner table g_commit carol]
    reachable_st_commit
  by (simp add: st_commit_def g_commit_def)

section \<open>Values that are no move\<close>

text \<open>
  Claim C8 as stated fails: in the commit phase Alice commits the hash of the value 3,
  which is no move, and the call succeeds.
\<close>

theorem commit_invalid_move_counterexample:
  "borrow_game demo_id owner st_commit = Inr (table, g_commit) \<and>
   phase g_commit = PHASE_COMMIT \<and> \<not> (3 :: u8) \<le> SCISSORS \<and>
   commit_move alice demo_id (create_move_hash demo_hash 3 nonce1) owner st_commit
     = Inr (st_c1 3)"
  using step_commit1[of 3] by (simp add: st_commit_def g_commit_def)

lemma commit_move_not_invalid_move:
  "commit_move p gid h r s \<noteq> Inl E_INVALID_MOVE"
  by (auto simp: commit_move_def borrow_game_def Let_def split: option.splits sum.splits)

text \<open>
  Claim C8, as the code has it. \<open>commit_move\<close> receives the hash and not the move, and
  never aborts with \<open>E_INVALID_MOVE\<close>. The move is checked by \<open>reveal_move\<close>: on a game in
  the reveal phase a move greater than \<open>SCISSORS\<close> aborts with \<open>E_INVALID_MOVE\<close>, and the
  chain, with the phase of the game, stays as it is.
\<close>

theorem invalid_move_at_reveal:
  "commit_move p gid h r s \<noteq> Inl E_INVALID_MOVE \<and>
   (borrow_game gid r s = Inr (a, g) \<and> phase g = PHASE_REVEAL \<and> \<not> m \<le> SCISSORS \<longrightarrow>
      reveal_move H p gid m n r s = Inl E_INVALID_MOVE \<and>
      execute (reveal_move H p gid m n r) s = s)"
  using commit_move_not_invalid_move[of p gid h r s]
  by (simp add: reveal_move_def execute_def)

text \<open>
  Alice has committed the hash of the value 3; revealing it aborts.
\<close>

theorem invalid_move_at_reveal_witness:
  "borrow_game demo_id owner (st_reveal 3 SCISSORS) = Inr (table, g_reveal 3 SCISSORS) \<and>
   phase (g_reveal 3 SCISSORS) = PHASE_REVEAL \<and> \<not> (3 :: u8) \<le> SCISSORS \<and>
   reveal_move demo_hash alice demo_id 3 nonce1 owner (st_reveal 3 SCISSORS) = Inl E_INVALID_MOVE \<and>
   execute (reveal_move demo_hash alice demo_id 3 nonce1 owner) (st_reveal 3 SCISSORS)
     = st_reveal 3 SCISSORS"
  using invalid_move_at_reveal[of alice demo_id "[]" owner "st_reveal 3 SCISSORS" table
      "g_reveal 3 SCISSORS" 3 demo_hash nonce1]
  by (simp add: st_reveal_def g_reveal_def)

section \<open>Identifiers\<close>

lemma id_loop_end: "id_loop hb (Suc (Suc (Suc (Suc 0)))) acc = Inr acc"
  by (subst id_loop.simps) simp

lemma id_loop_step:
  "i < 4 \<Longrightarrow> i < length hb \<Longrightarrow>
   id_loop hb i acc =
     id_loop hb (Suc i)
       (acc @ [(\<lambda>b. if b mod 32 < 26 then 65 + b mod 32 else 50 + (b mod 32 - 26)) (hb ! i)])"
  by (subst id_loop.simps) (simp add: Let_def)

lemma id_loop_four:
  assumes "4 \<le> length hb"
  shows "id_loop hb 0 [] =
           Inr (map (\<lambda>b. if b mod 32 < 26 then 65 + b mod 32 else 50 + (b mod 32 - 26))
                  (take 4 hb))"
proof -
  define sym :: "u8 \<Rightarrow> u8"
    where "sym = (\<lambda>b. if b mod 32 < 26 then 65 + b mod 32 else 50 + (b mod 32 - 26))"
  obtain b0 b1 b2 b3 rest where hb: "hb = b0 # b1 # b2 # b3 # rest"
    using assms by (cases hb; cases "tl hb"; cases "tl (tl hb)"; cases "tl (tl (tl hb))") auto
  have step: "id_loop hb i acc = id_loop hb (Suc i) (acc @ [sym (hb ! i)])" if "i < 4" for i acc
    using id_loop_step[of i hb acc] that assms by (simp add: sym_def)
  have "id_loop hb 0 [] = Inr [sym b0, sym b1, sym b2, sym b3]"
    by (simp add: step id_loop_end) (simp add: hb)
  then show ?thesis
    by (simp add: hb sym_def[symmetric] numeral_eq_Suc)
qed

lemma symbol_range:
  fixes b ch :: u8
  assumes "ch = (if b mod 32 < 26 then 65 + b mod 32 else 50 + (b mod 32 - 26))"
  shows "65 \<le> ch \<and> ch \<le> 90 \<or> 50 \<le> ch \<and> ch \<le> 57"
proof -
  have "unat (b mod 32) < 32"
    by (simp add: unat_mod)
  then show ?thesis
    unfolding assms
    by (auto simp: word_le_nat_alt word_less_nat_alt unat_word_ariths unat_sub)
qed

lemma suffix_digits:
  fixes counter :: u64
  shows "unat (48 + (ucast (counter mod 100) :: u8) div 10) = 48 + unat counter mod 100 div 10"
    and "unat (48 + (ucast (counter mod 100) :: u8) mod 10) = 48 + unat counter mod 10"
proof -
  have u: "unat (ucast (counter mod 100) :: u8) = unat counter mod 100"
    by (simp add: unsigned_ucast_eq unat_mod take_bit_nat_eq_self)
  have "unat counter mod 100 div 10 < 10"
    by simp
  then show "unat (48 + (ucast (counter mod 100) :: u8) div 10) = 48 + unat counter mod 100 div 10"
    by (simp add: unat_word_ariths unat_div u)
  have "unat counter mod 100 mod 10 = unat counter mod 10"
    by (simp add: mod_mod_cancel)
  then show "unat (48 + (ucast (counter mod 100) :: u8) mod 10) = 48 + unat counter mod 10"
    by (simp add: unat_word_ariths unat_mod u)
qed


text \<open>
  Claim C9, as the code has it. When the hash of the seed (the bytes of the creator, of
  the counter and of the clock, in this order) has at least four bytes, as a SHA3-256
  digest has, \<open>generate_game_id\<close> returns six characters. Each of the first four is
  obtained from the hash byte at its position, reduced modulo 32, and is an upper-case
  letter or a digit from \<open>2\<close> to \<open>9\<close>. The last two are the decimal digits of the counter
  modulo 100, tens first, as ASCII: they range over \<open>0\<close> to \<open>9\<close>, not over the 32-symbol
  alphabet.
\<close>

theorem game_id_format:
  assumes "4 \<le> length (H (bcs_address c @ bcs_u64 counter @ bcs_u64 now))"
  shows "\<exists>gid. generate_game_id H counter c now = Inr gid \<and> length gid = 6 \<and>
           take 4 gid =
             map (\<lambda>b. if b mod 32 < 26 then 65 + b mod 32 else 50 + (b mod 32 - 26))
               (take 4 (H (bcs_address c @ bcs_u64 counter @ bcs_u64 now))) \<and>
           (\<forall>ch \<in> set (take 4 gid). 65 \<le> ch \<and> ch \<le> 90 \<or> 50 \<le> ch \<and> ch \<le> 57) \<and>
           unat (gid ! 4) = 48 + unat counter mod 100 div 10 \<and>
           unat (gid ! 5) = 48 + unat counter mod 10"
proof -
  let ?hb = "H (bcs_address c @ bcs_u64 counter @ bcs_u64 now)"
  let ?sym = "\<lambda>b::u8. if b mod 32 < 26 then 65 + b mod 32 else 50 + (b mod 32 - 26)"
  let ?front = "map ?sym (take 4 ?hb)"
  let ?gid = "?front @ [48 + (ucast (counter mod 100) :: u8) div 10,
                        48 + (ucast (counter mod 100) :: u8) mod 10]"
  have len: "length ?front = 4"
    using assms by simp
  have gen: "generate_game_id H counter c now = Inr ?gid"
    using id_loop_four[OF assms] by (simp add: generate_game_id_def Let_def)
  have front: "take 4 ?gid = ?front"
    using len by simp
  have range: "\<forall>ch \<in> set ?front. 65 \<le> ch \<and> ch \<le> 90 \<or> 50 \<le> ch \<and> ch \<le> 57"
  proof
    fix ch
    assume "ch \<in> set ?front"
    then obtain b where "ch = ?sym b"
      by (auto simp only: set_map)
    then show "65 \<le> ch \<and> ch \<le> 90 \<or> 50 \<le> ch \<and> ch \<le> 57"
      by (rule symbol_range)
  qed
  have d4: "?gid ! 4 = 48 + (ucast (counter mod 100) :: u8) div 10"
    using len by (simp add: nth_append)
  have d5: "?gid ! 5 = 48 + (ucast (counter mod 100) :: u8) mod 10"
    using len by (simp add: nth_append)
  have "length ?gid = 6"
    using len by simp
  then show ?thesis
    using gen front range d4 d5 suffix_digits[of counter] by (intro exI[of _ ?gid]) simp
qed

text \<open>
  Claim C9 as stated fails on the suffix: with the counter 1 the fifth character is \<open>0\<close>,
  which is not in the alphabet.
\<close>

theorem game_id_format_counterexample:
  "generate_game_id demo_hash 1 alice 0 = Inr demo_id \<and> demo_id ! 4 = 48 \<and>
   48 \<notin> set clear_alphabet"
  using demo_id_generated by (simp add: demo_id_def clear_alphabet_def)

text \<open>
  The identifier of the game of Alice, \<open>AAAA01\<close>.
\<close>

theorem game_id_format_witness:
  "4 \<le> length (demo_hash (bcs_address alice @ bcs_u64 1 @ bcs_u64 0)) \<and>
   generate_game_id demo_hash 1 alice 0 = Inr demo_id \<and> length demo_id = 6 \<and>
   unat (demo_id ! 4) = 48 \<and> unat (demo_id ! 5) = 49"
  using game_id_format[of demo_hash alice 1 0] demo_id_generated
  by (simp add: demo_hash_def demo_id_def)

text \<open>
  Among the first four characters the code produces all 26 letters: a hash byte 8 gives
  \<open>I\<close>, which the alphabet leaves out.
\<close>

lemma game_id_letter_I:
  "generate_game_id (\<lambda>bs. replicate 32 8) 22 alice 0 = Inr [73, 73, 73, 73, 50, 50] \<and>
   73 \<notin> set clear_alphabet"
  by (simp add: generate_game_id_def id_loop.simps clear_alphabet_def)

section \<open>The players of a game\<close>

lemma withdraw_prize_borrows:
  assumes "borrow_game gid r s = Inr (a, g)" and "present g"
  shows "withdraw_prize w gid r s \<noteq> Inl EOPTION_NOT_SET"
  using assms
  by (auto simp: withdraw_prize_def present_def u64_add_def split: option.splits sum.splits)

text \<open>
  Claim C10. In every reachable chain, every stored game has its first player set, to
  its creator, and has its second player set whenever its phase is the commit phase, the
  reveal phase or the finished phase. So \<open>withdraw_prize\<close> never aborts on the borrow of an
  empty player option.
\<close>

theorem participants_present:
  assumes "reachable H s" and "games s a = Some g"
  shows "player1 g = Some (creator g) \<and>
         (phase g = PHASE_COMMIT \<or> phase g = PHASE_REVEAL \<or> phase g = PHASE_FINISHED
            \<longrightarrow> player2 g \<noteq> None) \<and>
         (borrow_game gid r s = Inr (a, g) \<longrightarrow> withdraw_prize w gid r s \<noteq> Inl EOPTION_NOT_SET)"
proof -
  have "present g"
    using chain_inv_present[OF reachable_chain_inv[OF assms(1)] assms(2)] .
  then show ?thesis
    using withdraw_prize_borrows[of gid r s a g w] by (simp add: present_def)
qed

text \<open>
  The finished draw of Alice and Bob, where the draw branch borrows both players.
\<close>

theorem participants_present_witness:
  "reachable demo_hash (st_fin PAPER PAPER) \<and>
   games (st_fin PAPER PAPER) table = Some (g_fin PAPER PAPER) \<and>
   phase (g_fin PAPER PAPER) = PHASE_FINISHED \<and>
   result (g_fin PAPER PAPER) = RESULT_DRAW \<and>
   borrow_game demo_id owner (st_fin PAPER PAPER) = Inr (table, g_fin PAPER PAPER) \<and>
   player1 (g_fin PAPER PAPER) = Some (creator (g_fin PAPER PAPER)) \<and>
   player2 (g_fin PAPER PAPER) \<noteq> None \<and>
   withdraw_prize bob demo_id owner (st_fin PAPER PAPER) \<noteq> Inl EOPTION_NOT_SET"
  using participants_present[of demo_hash "st_fin PAPER PAPER" table "g_fin PAPER PAPER"
      demo_id owner bob]
    reachable_st_fin[of PAPER PAPER] g_fin_sel[of PAPER PAPER] g_fin_draw
  by (simp add: st_fin_def) (simp add: scene_def)

end
